theory Spec2Isabelle
  imports Complex_Main
begin

section \<open>Python values shared by the snake agents\<close>

text \<open>
  The repository holds several variants of one grid game: \<^verbatim>\<open>Utilitybased.py\<close> (the planning
  agent), \<^verbatim>\<open>Modelbased.py\<close>, \<^verbatim>\<open>Learning.py\<close> and \<^verbatim>\<open>Learning/Learning2.py\<close> (the tabular
  Q-learning agents). Coordinates are Python integers (pixels, a cell is \<open>SIZE\<close> wide), so
  they are \<open>int\<close>; counters and list indices are \<open>nat\<close>. Exceptions are values of
  \<open>py_error + 'a\<close>. Python floats are idealised as \<open>real\<close>.
\<close>

datatype py_error = IndexError | KeyError | ValueError | ZeroDivisionError

definition bind_err :: "(py_error + 'a) \<Rightarrow> ('a \<Rightarrow> py_error + 'b) \<Rightarrow> py_error + 'b" where
  "bind_err m f = (case m of Inl e \<Rightarrow> Inl e | Inr v \<Rightarrow> f v)"

text \<open>
  The recursive functions below call themselves under \<open>bind_err\<close>; the congruence rule tells
  the function package that the continuation only runs on a normal result.
\<close>

lemma bind_err_Inl [simp]: "bind_err (Inl e) f = Inl e"
  by (simp add: bind_err_def)

lemma bind_err_Inr [simp]: "bind_err (Inr v) f = f v"
  by (simp add: bind_err_def)

lemma bind_err_cong [fundef_cong]:
  "m = m' \<Longrightarrow> (\<And>v. m' = Inr v \<Longrightarrow> f v = f' v) \<Longrightarrow> bind_err m f = bind_err m' f'"
  by (cases m') (simp_all add: bind_err_def)

definition py_get :: "'a list \<Rightarrow> nat \<Rightarrow> py_error + 'a" where
  \<comment> \<open>\<^verbatim>\<open>xs[i]\<close> for a non-negative index\<close>
  "py_get xs i = (if i < length xs then Inr (xs ! i) else Inl IndexError)"

definition py_last :: "'a list \<Rightarrow> py_error + 'a" where
  \<comment> \<open>\<^verbatim>\<open>xs[-1]\<close>\<close>
  "py_last xs = (if xs = [] then Inl IndexError else Inr (last xs))"

definition SIZE :: int where
  "SIZE = 40"

datatype direction = Left | Right | Up | Down

text \<open>
  \<^verbatim>\<open>class Snake\<close>: the heading, the segment count and the two coordinate lists (head at
  index 0). The fields that only serve the display (\<^verbatim>\<open>parent_screen\<close>, \<^verbatim>\<open>image\<close>,
  \<^verbatim>\<open>best_time\<close>) are left out.
\<close>

record snake =
  snake_direction :: direction
  snake_length :: nat
  snake_x :: "int list"
  snake_y :: "int list"

definition Snake_init :: snake where
  "Snake_init = \<lparr>snake_direction = Down, snake_length = 1, snake_x = [40], snake_y = [40]\<rparr>"

text \<open>The class invariant every method of \<^verbatim>\<open>Snake\<close> keeps: both lists hold \<open>length\<close> entries.\<close>

definition snake_wf :: "snake \<Rightarrow> bool" where
  "snake_wf s \<longleftrightarrow>
     1 \<le> snake_length s \<and> length (snake_x s) = snake_length s \<and> length (snake_y s) = snake_length s"

definition move_left :: "snake \<Rightarrow> snake" where
  "move_left s = (if snake_direction s \<noteq> Right then s\<lparr>snake_direction := Left\<rparr> else s)"

definition move_right :: "snake \<Rightarrow> snake" where
  "move_right s = (if snake_direction s \<noteq> Left then s\<lparr>snake_direction := Right\<rparr> else s)"

definition move_up :: "snake \<Rightarrow> snake" where
  "move_up s = (if snake_direction s \<noteq> Down then s\<lparr>snake_direction := Up\<rparr> else s)"

definition move_down :: "snake \<Rightarrow> snake" where
  "move_down s = (if snake_direction s \<noteq> Up then s\<lparr>snake_direction := Down\<rparr> else s)"

text \<open>
  \<^verbatim>\<open>Snake.increase_length\<close> of \<^verbatim>\<open>Utilitybased.py\<close> (and \<^verbatim>\<open>Modelbased.py\<close>):
  \<^verbatim>\<open>self.length += 1; self.x.append(self.x[-1]); self.y.append(self.y[-1])\<close>.
\<close>

definition increase_length :: "snake \<Rightarrow> py_error + snake" where
  "increase_length s =
     bind_err (py_last (snake_x s)) (\<lambda>lx.
     bind_err (py_last (snake_y s)) (\<lambda>ly.
       Inr (s\<lparr>snake_length := snake_length s + 1,
               snake_x := snake_x s @ [lx],
               snake_y := snake_y s @ [ly]\<rparr>)))"

text \<open>
  \<^verbatim>\<open>Snake.increase_length\<close> of \<^verbatim>\<open>Learning.py\<close> and \<^verbatim>\<open>Learning2.py\<close>:
  \<^verbatim>\<open>self.length += 1; self.x.append(-1); self.y.append(-1)\<close>.
\<close>

definition increase_length_learning :: "snake \<Rightarrow> snake" where
  "increase_length_learning s =
     s\<lparr>snake_length := snake_length s + 1,
       snake_x := snake_x s @ [- 1],
       snake_y := snake_y s @ [- 1]\<rparr>"

subsection \<open>Terminal self-collision check\<close>

text \<open>\<^verbatim>\<open>Game.is_collision\<close> of \<^verbatim>\<open>Utilitybased.py\<close>: equality of the two cells.\<close>

definition is_collision :: "int \<Rightarrow> int \<Rightarrow> int \<Rightarrow> int \<Rightarrow> bool" where
  "is_collision x1 y1 x2 y2 \<longleftrightarrow> x1 = x2 \<and> y1 = y2"

text \<open>
  The loop \<^verbatim>\<open>for i in range(4, self.snake.length)\<close> of \<^verbatim>\<open>Game.self_collision\<close>; the four
  arguments of \<^verbatim>\<open>is_collision\<close> are read in the order of the source.
\<close>

fun self_collision_from :: "snake \<Rightarrow> nat list \<Rightarrow> py_error + bool" where
  "self_collision_from s [] = Inr False"
| "self_collision_from s (i # js) =
     bind_err (py_get (snake_x s) 0) (\<lambda>x0.
     bind_err (py_get (snake_y s) 0) (\<lambda>y0.
     bind_err (py_get (snake_x s) i) (\<lambda>xi.
     bind_err (py_get (snake_y s) i) (\<lambda>yi.
       if is_collision x0 y0 xi yi then Inr True else self_collision_from s js))))"

definition self_collision :: "snake \<Rightarrow> py_error + bool" where
  "self_collision s =
     (if snake_length s < 4 then Inr False
      else self_collision_from s [4..<snake_length s])"

text \<open>\<^verbatim>\<open>Game.is_collision\<close> of \<^verbatim>\<open>Learning.py\<close>: the first point lies in the second block.\<close>

definition is_collision_learning :: "int \<Rightarrow> int \<Rightarrow> int \<Rightarrow> int \<Rightarrow> bool" where
  "is_collision_learning x1 y1 x2 y2 =
     (if x1 \<ge> x2 \<and> x1 < x2 + SIZE then
        (if y1 \<ge> y2 \<and> y1 < y2 + SIZE then True else False)
      else False)"

fun self_collision_learning_from :: "snake \<Rightarrow> nat list \<Rightarrow> py_error + bool" where
  "self_collision_learning_from s [] = Inr False"
| "self_collision_learning_from s (i # js) =
     bind_err (py_get (snake_x s) 0) (\<lambda>x0.
     bind_err (py_get (snake_y s) 0) (\<lambda>y0.
     bind_err (py_get (snake_x s) i) (\<lambda>xi.
     bind_err (py_get (snake_y s) i) (\<lambda>yi.
       if is_collision_learning x0 y0 xi yi then Inr True
       else self_collision_learning_from s js))))"

text \<open>\<^verbatim>\<open>Game.self_collision\<close> of \<^verbatim>\<open>Learning.py\<close>: \<^verbatim>\<open>for i in range(3, self.snake.length)\<close>.\<close>

definition self_collision_learning :: "snake \<Rightarrow> py_error + bool" where
  "self_collision_learning s = self_collision_learning_from s [3..<snake_length s]"

section \<open>The tabular Q-learning agent\<close>

text \<open>
  \<^verbatim>\<open>class QLearningAgent\<close> of \<^verbatim>\<open>Learning.py\<close> and \<^verbatim>\<open>Learning2.py\<close>. The table is a
  dictionary from state keys to numpy vectors of action values; the state type is left
  open (the game passes triples of integers, and \<^verbatim>\<open>None\<close> before the first tick), and so
  is the action type (the game passes four strings).
\<close>

record ('s, 'a) qagent =
  q_table :: "'s \<rightharpoonup> real list"
  actions :: "'a list"
  lr :: real
  gamma :: real
  epsilon :: real

definition py_lookup :: "('k \<rightharpoonup> 'v) \<Rightarrow> 'k \<Rightarrow> py_error + 'v" where
  \<comment> \<open>\<^verbatim>\<open>d[k]\<close>\<close>
  "py_lookup d k = (case d k of None \<Rightarrow> Inl KeyError | Some v \<Rightarrow> Inr v)"

definition first_index :: "'a list \<Rightarrow> 'a \<Rightarrow> nat" where
  "first_index xs a = length (takeWhile (\<lambda>x. x \<noteq> a) xs)"

definition py_index :: "'a list \<Rightarrow> 'a \<Rightarrow> py_error + nat" where
  \<comment> \<open>\<^verbatim>\<open>xs.index(a)\<close>: the first position of \<open>a\<close>\<close>
  "py_index xs a = (if a \<in> set xs then Inr (first_index xs a) else Inl ValueError)"

definition np_zeros :: "nat \<Rightarrow> real list" where
  "np_zeros n = replicate n 0"

definition np_max :: "real list \<Rightarrow> py_error + real" where
  "np_max v = (case v of [] \<Rightarrow> Inl ValueError | x # xs \<Rightarrow> Inr (fold max xs x))"

definition np_argmax :: "real list \<Rightarrow> py_error + nat" where
  \<comment> \<open>the first position of the largest entry\<close>
  "np_argmax v =
     (case v of [] \<Rightarrow> Inl ValueError
      | x # xs \<Rightarrow> Inr (first_index v (fold max xs x)))"

text \<open>
  The random source is injected: \<open>rand_k\<close> is the draw behind \<^verbatim>\<open>np.random.choice\<close> (every
  entry of a non-empty list is the outcome of some draw) and \<open>rand_u\<close> is the value of
  \<^verbatim>\<open>np.random.rand()\<close>, a number in \<open>[0, 1)\<close>.
\<close>

definition random_choice :: "'a list \<Rightarrow> nat \<Rightarrow> py_error + 'a" where
  "random_choice xs rand_k =
     (if xs = [] then Inl ValueError else Inr (xs ! (rand_k mod length xs)))"

definition choose_action :: "('s, 'a) qagent \<Rightarrow> 's \<Rightarrow> real \<Rightarrow> nat \<Rightarrow> py_error + 'a" where
  "choose_action ag state rand_u rand_k =
     (if rand_u < epsilon ag \<or> q_table ag state = None then random_choice (actions ag) rand_k
      else
        bind_err (py_lookup (q_table ag) state) (\<lambda>action_values.
        bind_err (np_argmax action_values) (\<lambda>i.
          py_get (actions ag) i)))"

definition learn ::
  "('s, 'a) qagent \<Rightarrow> 's \<Rightarrow> 'a \<Rightarrow> real \<Rightarrow> 's option \<Rightarrow> py_error + ('s, 'a) qagent" where
  "learn ag state action reward next_state =
     (let q1 = (if q_table ag state = None
                then (q_table ag)(state \<mapsto> np_zeros (length (actions ag)))
                else q_table ag);
          q2 = (case next_state of
                  None \<Rightarrow> q1
                | Some ns \<Rightarrow>
                    if q1 ns = None then q1(ns \<mapsto> np_zeros (length (actions ag))) else q1)
      in
        bind_err (py_index (actions ag) action) (\<lambda>action_index.
        bind_err (py_lookup q2 state) (\<lambda>row.
        bind_err (py_get row action_index) (\<lambda>predict.
        bind_err (case next_state of
                    None \<Rightarrow> Inr reward
                  | Some ns \<Rightarrow>
                      bind_err (py_lookup q2 ns) (\<lambda>next_row.
                      bind_err (np_max next_row) (\<lambda>m.
                        Inr (reward + gamma ag * m)))) (\<lambda>target.
          Inr (ag\<lparr>q_table :=
                 q2(state \<mapsto> row[action_index := predict + lr ag * (target - predict)])\<rparr>))))))"

text \<open>
  The action values of a state as the update rule sees them: a state that is not stored
  reads as the all-zero vector it is initialised to.
\<close>

definition q_values :: "('s, 'a) qagent \<Rightarrow> 's \<Rightarrow> real list" where
  "q_values ag k =
     (case q_table ag k of None \<Rightarrow> np_zeros (length (actions ag)) | Some v \<Rightarrow> v)"

text \<open>Every stored vector has one entry per action.\<close>

definition table_ok :: "('s, 'a) qagent \<Rightarrow> bool" where
  "table_ok ag \<longleftrightarrow> (\<forall>k v. q_table ag k = Some v \<longrightarrow> length v = length (actions ag))"

section \<open>The goal cell\<close>

text \<open>
  \<^verbatim>\<open>class Apple\<close> of \<^verbatim>\<open>Utilitybased.py\<close> and \<^verbatim>\<open>Modelbased.py\<close>: the screen size read from the
  surface, the grid size derived from it, and the position.
\<close>

record apple =
  apple_screen_width :: int
  apple_screen_height :: int
  apple_grid_width :: int
  apple_grid_height :: int
  apple_x :: int
  apple_y :: int

definition Apple_init :: "int \<Rightarrow> int \<Rightarrow> apple" where
  "Apple_init w h =
     \<lparr>apple_screen_width = w, apple_screen_height = h,
      apple_grid_width = w div SIZE, apple_grid_height = h div SIZE,
      apple_x = 120, apple_y = 120\<rparr>"

text \<open>
  \<^verbatim>\<open>Apple.move\<close>. The candidate cells are \<^verbatim>\<open>range(0, screen_width - SIZE, SIZE)\<close> by
  \<^verbatim>\<open>range(0, screen_height - SIZE, SIZE)\<close>; the three random draws (\<^verbatim>\<open>random.choice\<close> and the
  two \<^verbatim>\<open>random.randint\<close>) are injected. The function returns nothing: its whole effect is
  the new position.
\<close>

definition py_range :: "int \<Rightarrow> int \<Rightarrow> int \<Rightarrow> int list" where
  \<comment> \<open>\<^verbatim>\<open>range(start, stop, step)\<close> for a positive step\<close>
  "py_range start stop step =
     map (\<lambda>k. start + int k * step) [0..<nat ((stop - start + step - 1) div step)]"

definition randint :: "int \<Rightarrow> int \<Rightarrow> nat \<Rightarrow> py_error + int" where
  "randint a b rand_k =
     (if b < a then Inl ValueError else Inr (a + int (rand_k mod nat (b - a + 1))))"

definition valid_positions :: "apple \<Rightarrow> (int \<times> int) list \<Rightarrow> (int \<times> int) list" where
  "valid_positions a snake_positions =
     [(x, y). x \<leftarrow> py_range 0 (apple_screen_width a - SIZE) SIZE,
              y \<leftarrow> py_range 0 (apple_screen_height a - SIZE) SIZE,
              (x, y) \<notin> set snake_positions]"

definition Apple_move ::
  "apple \<Rightarrow> (int \<times> int) list option \<Rightarrow> nat \<Rightarrow> nat \<Rightarrow> nat \<Rightarrow> py_error + apple" where
  "Apple_move a snake_positions rand_c rand_x rand_y =
     (let positions = (case snake_positions of None \<Rightarrow> [] | Some ps \<Rightarrow> ps);
          valid = valid_positions a positions
      in
        if valid \<noteq> [] then
          bind_err (random_choice valid rand_c) (\<lambda>(x, y).
            Inr (a\<lparr>apple_x := x, apple_y := y\<rparr>))
        else
          bind_err (randint 0 (apple_grid_width a - 1) rand_x) (\<lambda>i.
          bind_err (randint 0 (apple_grid_height a - 1) rand_y) (\<lambda>j.
            Inr (a\<lparr>apple_x := i * SIZE, apple_y := j * SIZE\<rparr>))))"

text \<open>What \<^verbatim>\<open>Apple.__init__\<close> establishes, on a screen of at least one cell.\<close>

definition apple_wf :: "apple \<Rightarrow> bool" where
  "apple_wf a \<longleftrightarrow>
     apple_grid_width a = apple_screen_width a div SIZE
     \<and> apple_grid_height a = apple_screen_height a div SIZE
     \<and> SIZE \<le> apple_screen_width a \<and> SIZE \<le> apple_screen_height a"

text \<open>
  The cells of the grid, which are the cells the fallback of \<^verbatim>\<open>Apple.move\<close> draws from:
  \<^verbatim>\<open>random.randint(0, grid_width - 1) * SIZE\<close> by \<^verbatim>\<open>random.randint(0, grid_height - 1) * SIZE\<close>.
\<close>

definition grid_cells :: "apple \<Rightarrow> (int \<times> int) list" where
  "grid_cells a =
     [(i * SIZE, j * SIZE). i \<leftarrow> [0..apple_grid_width a - 1], j \<leftarrow> [0..apple_grid_height a - 1]]"

section \<open>The planning agent of \<^verbatim>\<open>Utilitybased.py\<close>\<close>

text \<open>
  \<^verbatim>\<open>class Game\<close>: the surface size (\<^verbatim>\<open>self.surface.get_width()\<close>, \<^verbatim>\<open>get_height()\<close>), the snake
  and the apple. Speed and clock are left out.
\<close>

record game =
  surface_width :: int
  surface_height :: int
  game_snake :: snake
  game_apple :: apple

definition Game_init :: game where
  "Game_init =
     \<lparr>surface_width = 1000, surface_height = 800,
      game_snake = Snake_init, game_apple = Apple_init 1000 800\<rparr>"

text \<open>
  \<^verbatim>\<open>Game._would_collide\<close>: off the surface, or on a body segment other than the head. The
  test \<^verbatim>\<open>x == self.snake.x[i] and y == self.snake.y[i]\<close> reads \<^verbatim>\<open>y[i]\<close> only when the first
  comparison holds.
\<close>

fun body_collide :: "snake \<Rightarrow> int \<Rightarrow> int \<Rightarrow> nat list \<Rightarrow> py_error + bool" where
  "body_collide s x y [] = Inr False"
| "body_collide s x y (i # js) =
     bind_err (py_get (snake_x s) i) (\<lambda>xi.
       if x = xi then
         bind_err (py_get (snake_y s) i) (\<lambda>yi.
           if y = yi then Inr True else body_collide s x y js)
       else body_collide s x y js)"

definition would_collide :: "game \<Rightarrow> int \<Rightarrow> int \<Rightarrow> py_error + bool" where
  "would_collide g x y =
     (if x < 0 \<or> x \<ge> surface_width g \<or> y < 0 \<or> y \<ge> surface_height g then Inr True
      else body_collide (game_snake g) x y [1..<snake_length (game_snake g)])"

text \<open>The four steps \<^verbatim>\<open>[(0, -SIZE), (0, SIZE), (-SIZE, 0), (SIZE, 0)]\<close>: up, down, left, right.\<close>

definition deltas :: "(int \<times> int) list" where
  "deltas = [(0, - SIZE), (0, SIZE), (- SIZE, 0), (SIZE, 0)]"

text \<open>\<^verbatim>\<open>get_neighbors\<close>, local to \<^verbatim>\<open>_find_path_astar\<close>.\<close>

fun get_neighbors_loop ::
  "game \<Rightarrow> int \<Rightarrow> int \<Rightarrow> (int \<times> int) list \<Rightarrow> py_error + (int \<times> int) list" where
  "get_neighbors_loop g x y [] = Inr []"
| "get_neighbors_loop g x y ((dx, dy) # ds) =
     (let nx = x + dx; ny = y + dy in
        if 0 \<le> nx \<and> nx < surface_width g \<and> 0 \<le> ny \<and> ny < surface_height g then
          bind_err (would_collide g nx ny) (\<lambda>c.
          bind_err (get_neighbors_loop g x y ds) (\<lambda>neighbors.
            Inr (if \<not> c then (nx, ny) # neighbors else neighbors)))
        else get_neighbors_loop g x y ds)"

definition get_neighbors :: "game \<Rightarrow> int \<Rightarrow> int \<Rightarrow> py_error + (int \<times> int) list" where
  "get_neighbors g x y = get_neighbors_loop g x y deltas"

text \<open>
  The breadth-first search of \<^verbatim>\<open>_find_path_astar\<close>. A queue entry is a cell with the path
  that led to it. \<open>visit_neighbors\<close> is the inner \<^verbatim>\<open>for\<close> loop; \<open>bfs_loop\<close> is the
  \<^verbatim>\<open>while queue and iterations < max_iterations\<close> loop, which gives up after 200 cells.
\<close>

definition max_iterations :: nat where
  "max_iterations = 200"

fun visit_neighbors ::
  "(int \<times> int) list \<Rightarrow> (int \<times> int) list \<Rightarrow> (int \<times> int \<times> (int \<times> int) list) list \<Rightarrow>
   (int \<times> int) set \<Rightarrow> (int \<times> int \<times> (int \<times> int) list) list \<times> (int \<times> int) set" where
  "visit_neighbors [] path queue visited = (queue, visited)"
| "visit_neighbors ((neighbor_x, neighbor_y) # ns) path queue visited =
     (if (neighbor_x, neighbor_y) \<notin> visited then
        visit_neighbors ns path
          (queue @ [(neighbor_x, neighbor_y, path @ [(neighbor_x, neighbor_y)])])
          (insert (neighbor_x, neighbor_y) visited)
      else visit_neighbors ns path queue visited)"

function bfs_loop ::
  "game \<Rightarrow> int \<Rightarrow> int \<Rightarrow> (int \<times> int \<times> (int \<times> int) list) list \<Rightarrow> (int \<times> int) set \<Rightarrow> nat \<Rightarrow>
   py_error + (int \<times> int) list option" where
  "bfs_loop g goal_x goal_y queue visited iterations =
     (case queue of
        [] \<Rightarrow> Inr None
      | (current_x, current_y, path) # rest \<Rightarrow>
          if iterations < max_iterations then
            if current_x = goal_x \<and> current_y = goal_y then Inr (Some path)
            else
              bind_err (get_neighbors g current_x current_y) (\<lambda>neighbors.
                case visit_neighbors neighbors path rest visited of
                  (queue', visited') \<Rightarrow>
                    bfs_loop g goal_x goal_y queue' visited' (iterations + 1))
          else Inr None)"
  by pat_completeness auto
termination
  by (relation "measure (\<lambda>(g, goal_x, goal_y, queue, visited, iterations).
        max_iterations - iterations)") auto

declare bfs_loop.simps [simp del]

definition find_path_astar ::
  "game \<Rightarrow> int \<Rightarrow> int \<Rightarrow> int \<Rightarrow> int \<Rightarrow> py_error + (int \<times> int) list option" where
  "find_path_astar g start_x start_y goal_x goal_y =
     bfs_loop g goal_x goal_y [(start_x, start_y, [(start_x, start_y)])] {(start_x, start_y)} 0"

text \<open>
  The graph the search runs on. A cell is blocked when \<^verbatim>\<open>_would_collide\<close> holds for it; a
  step leads from a cell to one of its four neighbours that is not blocked; a walk is a
  non-empty list of cells in which each cell is one step from the one before it.
\<close>

definition blocked :: "game \<Rightarrow> int \<times> int \<Rightarrow> bool" where
  "blocked g c \<longleftrightarrow>
     fst c < 0 \<or> fst c \<ge> surface_width g \<or> snd c < 0 \<or> snd c \<ge> surface_height g
     \<or> (\<exists>i\<in>{1..<snake_length (game_snake g)}.
           fst c = snake_x (game_snake g) ! i \<and> snd c = snake_y (game_snake g) ! i)"

definition four_neighbours :: "int \<times> int \<Rightarrow> (int \<times> int) list" where
  "four_neighbours c =
     [(fst c, snd c - SIZE), (fst c, snd c + SIZE), (fst c - SIZE, snd c), (fst c + SIZE, snd c)]"

definition free_step :: "game \<Rightarrow> int \<times> int \<Rightarrow> int \<times> int \<Rightarrow> bool" where
  "free_step g c c' \<longleftrightarrow> c' \<in> set (four_neighbours c) \<and> \<not> blocked g c'"

fun walk :: "game \<Rightarrow> (int \<times> int) list \<Rightarrow> bool" where
  "walk g [] = False"
| "walk g [c] = True"
| "walk g (c # c' # cs) = (free_step g c c' \<and> walk g (c' # cs))"

definition walk_from_to :: "game \<Rightarrow> int \<times> int \<Rightarrow> int \<times> int \<Rightarrow> (int \<times> int) list \<Rightarrow> bool" where
  "walk_from_to g a b p \<longleftrightarrow> walk g p \<and> hd p = a \<and> last p = b"

definition reachable :: "game \<Rightarrow> int \<times> int \<Rightarrow> int \<times> int \<Rightarrow> bool" where
  "reachable g a b \<longleftrightarrow> (\<exists>p. walk_from_to g a b p)"

text \<open>A walk between two cells that no walk between them undercuts in length.\<close>

definition shortest_walk :: "game \<Rightarrow> int \<times> int \<Rightarrow> int \<times> int \<Rightarrow> (int \<times> int) list \<Rightarrow> bool" where
  "shortest_walk g a b p \<longleftrightarrow>
     walk_from_to g a b p \<and> (\<forall>q. walk_from_to g a b q \<longrightarrow> length p \<le> length q)"

text \<open>
  The breadth-first visiting order from a start cell: the start cell comes first, and step
  \<open>t\<close> appends those free neighbours (up, down, left, right) of the \<open>t\<close>-th cell that are
  not in the order yet (\<open>fresh\<close>, below, lists them). After \<open>n\<close> steps the first \<open>n\<close> cells
  are settled.
\<close>

fun fresh :: "(int \<times> int) list \<Rightarrow> (int \<times> int) set \<Rightarrow> (int \<times> int) list" where
  "fresh [] visited = []"
| "fresh (n # ns) visited =
     (if n \<notin> visited then n # fresh ns (insert n visited) else fresh ns visited)"

definition free_neighbours :: "game \<Rightarrow> int \<times> int \<Rightarrow> (int \<times> int) list" where
  "free_neighbours g c = filter (\<lambda>n. \<not> blocked g n) (four_neighbours c)"

fun bfs_order :: "game \<Rightarrow> int \<times> int \<Rightarrow> nat \<Rightarrow> (int \<times> int) list" where
  "bfs_order g start 0 = [start]"
| "bfs_order g start (Suc t) =
     (let order = bfs_order g start t in
        if t < length order then
          order @ fresh (free_neighbours g (order ! t)) (set order)
        else order)"

subsection \<open>Invariants of the search loop\<close>

text \<open>
  \<open>fresh\<close> lists the neighbours the inner loop enqueues. \<open>bfs_inv\<close>: every queued path is a
  shortest walk to its cell, the queue is ordered by path length with at most two
  lengths, and a visited cell that is no longer queued has all its free neighbours
  visited. \<open>bfs_count_inv\<close>: the cells already dequeued are as many as the iterations,
  are reachable, and are not the goal.
\<close>

definition entry_cell :: "int \<times> int \<times> (int \<times> int) list \<Rightarrow> int \<times> int" where
  "entry_cell e = (fst e, fst (snd e))"

definition entry_path :: "int \<times> int \<times> (int \<times> int) list \<Rightarrow> (int \<times> int) list" where
  "entry_path e = snd (snd e)"

definition bfs_inv ::
  "game \<Rightarrow> int \<times> int \<Rightarrow> (int \<times> int \<times> (int \<times> int) list) list \<Rightarrow> (int \<times> int) set \<Rightarrow> bool" where
  "bfs_inv g start queue visited \<longleftrightarrow>
     start \<in> visited
     \<and> (\<forall>e\<in>set queue. shortest_walk g start (entry_cell e) (entry_path e) \<and> entry_cell e \<in> visited)
     \<and> sorted (map (\<lambda>e. length (entry_path e)) queue)
     \<and> (\<forall>e\<in>set queue. length (entry_path e) \<le> Suc (length (entry_path (hd queue))))
     \<and> (\<forall>v\<in>visited. v \<in> entry_cell ` set queue \<or> (\<forall>n. free_step g v n \<longrightarrow> n \<in> visited))"

definition bfs_count_inv ::
  "game \<Rightarrow> int \<times> int \<Rightarrow> int \<times> int \<Rightarrow> (int \<times> int \<times> (int \<times> int) list) list \<Rightarrow>
   (int \<times> int) set \<Rightarrow> nat \<Rightarrow> bool" where
  "bfs_count_inv g start goal queue visited iterations \<longleftrightarrow>
     finite visited
     \<and> distinct (map entry_cell queue)
     \<and> card (visited - entry_cell ` set queue) = iterations
     \<and> goal \<notin> visited - entry_cell ` set queue
     \<and> (\<forall>v\<in>visited. reachable g start v)"

text \<open>
  \<open>bfs_order_inv\<close>: after \<open>iterations\<close> iterations the queue holds the cells of the visiting
  order from position \<open>iterations\<close> on, and the goal is not among the cells before it.
\<close>

definition bfs_order_inv ::
  "game \<Rightarrow> int \<times> int \<Rightarrow> int \<times> int \<Rightarrow> (int \<times> int \<times> (int \<times> int) list) list \<Rightarrow>
   (int \<times> int) set \<Rightarrow> nat \<Rightarrow> bool" where
  "bfs_order_inv g start goal queue visited iterations \<longleftrightarrow>
     map entry_cell queue = drop iterations (bfs_order g start iterations)
     \<and> visited = set (bfs_order g start iterations)
     \<and> iterations \<le> length (bfs_order g start iterations)
     \<and> iterations \<le> max_iterations
     \<and> goal \<notin> set (take iterations (bfs_order g start iterations))"

subsection \<open>Move scoring\<close>

text \<open>
  \<^verbatim>\<open>Game._flood_fill_count\<close>: the loop \<^verbatim>\<open>while queue and count < max_depth\<close> pops an entry,
  skips it when it is visited, too deep or blocked, and otherwise counts it and appends
  its unvisited neighbours.
\<close>

function flood_fill_loop ::
  "game \<Rightarrow> (int \<times> int \<times> nat) list \<Rightarrow> (int \<times> int) set \<Rightarrow> nat \<Rightarrow> nat \<Rightarrow> py_error + nat" where
  "flood_fill_loop g queue visited count max_depth =
     (case queue of
        [] \<Rightarrow> Inr count
      | (x, y, depth) # rest \<Rightarrow>
          if count < max_depth then
            if (x, y) \<in> visited \<or> depth > max_depth then
              flood_fill_loop g rest visited count max_depth
            else
              bind_err (would_collide g x y) (\<lambda>c.
                if c then flood_fill_loop g rest visited count max_depth
                else
                  flood_fill_loop g
                    (rest @ [(x + dx, y + dy, depth + 1). (dx, dy) \<leftarrow> deltas,
                               (x + dx, y + dy) \<notin> insert (x, y) visited])
                    (insert (x, y) visited) (count + 1) max_depth)
          else Inr count)"
  by pat_completeness auto
termination
  by (relation "measures [\<lambda>(g, queue, visited, count, max_depth). max_depth - count,
                          \<lambda>(g, queue, visited, count, max_depth). length queue]") auto

declare flood_fill_loop.simps [simp del]

definition flood_fill_count :: "game \<Rightarrow> int \<Rightarrow> int \<Rightarrow> nat \<Rightarrow> py_error + nat" where
  "flood_fill_count g start_x start_y max_depth =
     flood_fill_loop g [(start_x, start_y, 0)] {} 0 max_depth"

text \<open>
  What the flood fill is meant to count: the free cells that can be reached from a cell over
  free 4-connected steps; nothing when the cell itself is blocked. \<open>flood_inv\<close> is the
  invariant of the flood-fill loop with respect to that region: the visited cells are counted
  once each and lie in the region, the queued depths never exceed the count, and every free
  neighbour of a visited cell is visited or queued.
\<close>

definition free_region :: "game \<Rightarrow> int \<times> int \<Rightarrow> (int \<times> int) set" where
  "free_region g c = (if blocked g c then {} else {c'. reachable g c c'})"



text \<open>
  \<^verbatim>\<open>Game._calculate_trap_avoidance_score\<close>: the flood fill runs with its default cap of 50;
  \<open>trap_avoidance\<close> is the arithmetic on its result.
\<close>

definition trap_avoidance :: "nat \<Rightarrow> nat \<Rightarrow> real" where
  "trap_avoidance accessible_spaces snake_len =
     (let min_required_space = snake_len + 5 in
        if accessible_spaces \<ge> min_required_space then 100
        else real accessible_spaces / real min_required_space * 100)"

definition calculate_trap_avoidance_score :: "game \<Rightarrow> int \<Rightarrow> int \<Rightarrow> py_error + real" where
  "calculate_trap_avoidance_score g x y =
     bind_err (flood_fill_count g x y 50) (\<lambda>accessible_spaces.
       Inr (trap_avoidance accessible_spaces (snake_length (game_snake g))))"

text \<open>\<^verbatim>\<open>Game._calculate_safety_score\<close>: the free cells among the 24 around the position.\<close>

fun safety_loop ::
  "game \<Rightarrow> int \<Rightarrow> int \<Rightarrow> (int \<times> int) list \<Rightarrow> nat \<Rightarrow> nat \<Rightarrow> py_error + nat \<times> nat" where
  "safety_loop g x y [] safe_spaces total_spaces = Inr (safe_spaces, total_spaces)"
| "safety_loop g x y ((dx, dy) # ds) safe_spaces total_spaces =
     (if dx = 0 \<and> dy = 0 then safety_loop g x y ds safe_spaces total_spaces
      else
        bind_err (would_collide g (x + dx) (y + dy)) (\<lambda>c.
          safety_loop g x y ds (if \<not> c then safe_spaces + 1 else safe_spaces)
            (total_spaces + 1)))"

definition calculate_safety_score :: "game \<Rightarrow> int \<Rightarrow> int \<Rightarrow> py_error + real" where
  "calculate_safety_score g x y =
     bind_err
       (safety_loop g x y
          [(dx, dy). dx \<leftarrow> py_range (- SIZE * 2) (SIZE * 3) SIZE,
                     dy \<leftarrow> py_range (- SIZE * 2) (SIZE * 3) SIZE] 0 0)
       (\<lambda>(safe_spaces, total_spaces).
          Inr (if total_spaces > 0 then real safe_spaces / real total_spaces * 100 else 0))"

text \<open>\<^verbatim>\<open>Game._calculate_mobility_score\<close>: the free cells among the four neighbours.\<close>

fun mobility_loop :: "game \<Rightarrow> int \<Rightarrow> int \<Rightarrow> (int \<times> int) list \<Rightarrow> nat \<Rightarrow> py_error + nat" where
  "mobility_loop g x y [] future_moves = Inr future_moves"
| "mobility_loop g x y ((dx, dy) # ds) future_moves =
     bind_err (would_collide g (x + dx) (y + dy)) (\<lambda>c.
       mobility_loop g x y ds (if \<not> c then future_moves + 1 else future_moves))"

definition calculate_mobility_score :: "game \<Rightarrow> int \<Rightarrow> int \<Rightarrow> py_error + real" where
  "calculate_mobility_score g x y =
     bind_err (mobility_loop g x y deltas 0) (\<lambda>future_moves.
       Inr (real future_moves / 4 * 100))"

text \<open>
  \<^verbatim>\<open>Game._calculate_move_score\<close>. The division by \<^verbatim>\<open>max_distance\<close> raises on a surface of
  size zero. \<open>total_score\<close> is the weighted sum.
\<close>

definition total_score :: "real \<Rightarrow> real \<Rightarrow> real \<Rightarrow> real \<Rightarrow> real" where
  "total_score distance_score safety_score mobility_score trap_avoidance_score =
     distance_score * 0.4 + safety_score * 0.3 + mobility_score * 0.2
     + trap_avoidance_score * 0.1"

definition calculate_move_score :: "game \<Rightarrow> int \<Rightarrow> int \<Rightarrow> int \<Rightarrow> int \<Rightarrow> py_error + real" where
  "calculate_move_score g x y ax ay =
     (let distance_to_apple = sqrt (real_of_int ((ax - x)\<^sup>2 + (ay - y)\<^sup>2));
          max_distance = sqrt (real_of_int ((surface_width g)\<^sup>2 + (surface_height g)\<^sup>2))
      in
        if max_distance = 0 then Inl ZeroDivisionError
        else
          let distance_score = (max_distance - distance_to_apple) / max_distance * 100 in
            bind_err (calculate_safety_score g x y) (\<lambda>safety_score.
            bind_err (calculate_mobility_score g x y) (\<lambda>mobility_score.
            bind_err (calculate_trap_avoidance_score g x y) (\<lambda>trap_avoidance_score.
              Inr (total_score distance_score safety_score mobility_score
                     trap_avoidance_score)))))"

subsection \<open>The decision cascade\<close>

definition opposites :: "direction \<Rightarrow> direction" where
  "opposites d = (case d of Left \<Rightarrow> Right | Right \<Rightarrow> Left | Up \<Rightarrow> Down | Down \<Rightarrow> Up)"

definition is_opposite_direction :: "game \<Rightarrow> direction \<Rightarrow> bool" where
  "is_opposite_direction g d \<longleftrightarrow> d = opposites (snake_direction (game_snake g))"

text \<open>\<^verbatim>\<open>Game._evaluate_moves\<close>: the scored moves, in the order left, right, up, down.\<close>

fun evaluate_moves_loop ::
  "game \<Rightarrow> int \<Rightarrow> int \<Rightarrow> (direction \<times> int \<times> int) list \<Rightarrow> py_error + (direction \<times> real) list" where
  "evaluate_moves_loop g ax ay [] = Inr []"
| "evaluate_moves_loop g ax ay ((d, next_x, next_y) # ds) =
     (if is_opposite_direction g d then evaluate_moves_loop g ax ay ds
      else
        bind_err (would_collide g next_x next_y) (\<lambda>c.
          if c then evaluate_moves_loop g ax ay ds
          else
            bind_err (calculate_move_score g next_x next_y ax ay) (\<lambda>score.
            bind_err (evaluate_moves_loop g ax ay ds) (\<lambda>scored_moves.
              Inr ((d, score) # scored_moves)))))"

definition evaluate_moves ::
  "game \<Rightarrow> int \<Rightarrow> int \<Rightarrow> int \<Rightarrow> int \<Rightarrow> py_error + (direction \<times> real) list" where
  "evaluate_moves g head_x head_y ax ay =
     evaluate_moves_loop g ax ay
       [(Left, head_x - SIZE, head_y), (Right, head_x + SIZE, head_y),
        (Up, head_x, head_y - SIZE), (Down, head_x, head_y + SIZE)]"

text \<open>\<^verbatim>\<open>max(possible_moves, key=lambda x: x[1])\<close>: the first move with the largest score.\<close>

fun best_of :: "direction \<times> real \<Rightarrow> (direction \<times> real) list \<Rightarrow> direction \<times> real" where
  "best_of best [] = best"
| "best_of best (m # ms) = best_of (if snd m > snd best then m else best) ms"

text \<open>
  \<^verbatim>\<open>Game._emergency_move\<close>. Both loops run over up, down, left, right and skip the reverse
  of the current heading; the result is the direction handed to \<^verbatim>\<open>_execute_move\<close>, or
  \<open>None\<close> when both loops end without handing one over.
\<close>

fun emergency_first ::
  "game \<Rightarrow> int \<Rightarrow> int \<Rightarrow> (direction \<times> int \<times> int) list \<Rightarrow> py_error + direction option" where
  "emergency_first g head_x head_y [] = Inr None"
| "emergency_first g head_x head_y ((d, dx, dy) # ds) =
     (if is_opposite_direction g d then emergency_first g head_x head_y ds
      else
        bind_err (would_collide g (head_x + dx) (head_y + dy)) (\<lambda>c.
          if \<not> c then Inr (Some d) else emergency_first g head_x head_y ds))"

fun emergency_second :: "game \<Rightarrow> (direction \<times> int \<times> int) list \<Rightarrow> direction option" where
  "emergency_second g [] = None"
| "emergency_second g ((d, dx, dy) # ds) =
     (if \<not> is_opposite_direction g d then Some d else emergency_second g ds)"

definition emergency_move :: "game \<Rightarrow> int \<Rightarrow> int \<Rightarrow> py_error + direction option" where
  "emergency_move g head_x head_y =
     bind_err (emergency_first g head_x head_y (zip [Up, Down, Left, Right] deltas)) (\<lambda>r.
       case r of
         Some d \<Rightarrow> Inr (Some d)
       | None \<Rightarrow> Inr (emergency_second g (zip [Up, Down, Left, Right] deltas)))"

definition get_direction_to_position :: "int \<Rightarrow> int \<Rightarrow> int \<Rightarrow> int \<Rightarrow> direction option" where
  "get_direction_to_position from_x from_y to_x to_y =
     (let dx = to_x - from_x; dy = to_y - from_y in
        if dx < 0 then Some Left
        else if dx > 0 then Some Right
        else if dy < 0 then Some Up
        else if dy > 0 then Some Down
        else None)"

definition execute_move :: "game \<Rightarrow> direction \<Rightarrow> game" where
  "execute_move g d =
     g\<lparr>game_snake :=
         (case d of
            Left \<Rightarrow> move_left (game_snake g)
          | Right \<Rightarrow> move_right (game_snake g)
          | Up \<Rightarrow> move_up (game_snake g)
          | Down \<Rightarrow> move_down (game_snake g))\<rparr>"

text \<open>
  \<^verbatim>\<open>Game.auto_control\<close>. \<open>auto_control_choice\<close> is the direction the cascade hands to
  \<^verbatim>\<open>_execute_move\<close> (path step, else best scored move, else emergency move), \<open>None\<close> when
  the tick ends without a call; \<open>auto_control\<close> applies it to the snake.
\<close>

definition path_step :: "(int \<times> int) list option \<Rightarrow> int \<Rightarrow> int \<Rightarrow> direction option" where
  "path_step path head_x head_y =
     (case path of
        None \<Rightarrow> None
      | Some p \<Rightarrow>
          if p \<noteq> [] \<and> length p > 1 then
            get_direction_to_position head_x head_y (fst (p ! 1)) (snd (p ! 1))
          else None)"

definition auto_control_choice :: "game \<Rightarrow> py_error + direction option" where
  "auto_control_choice g =
     bind_err (py_get (snake_x (game_snake g)) 0) (\<lambda>head_x.
     bind_err (py_get (snake_y (game_snake g)) 0) (\<lambda>head_y.
       let ax = apple_x (game_apple g); ay = apple_y (game_apple g) in
         bind_err (find_path_astar g head_x head_y ax ay) (\<lambda>path.
           case path_step path head_x head_y of
             Some direction \<Rightarrow> Inr (Some direction)
           | None \<Rightarrow>
               bind_err (evaluate_moves g head_x head_y ax ay) (\<lambda>possible_moves.
                 case possible_moves of
                   m # ms \<Rightarrow> Inr (Some (fst (best_of m ms)))
                 | [] \<Rightarrow> emergency_move g head_x head_y))))"

definition auto_control :: "game \<Rightarrow> py_error + game" where
  "auto_control g =
     bind_err (auto_control_choice g) (\<lambda>choice.
       Inr (case choice of None \<Rightarrow> g | Some d \<Rightarrow> execute_move g d))"

text \<open>
  A well-formed snapshot: the snake keeps its invariant and the goal lies on the surface
  (so the surface is not empty).
\<close>

definition game_wf :: "game \<Rightarrow> bool" where
  "game_wf g \<longleftrightarrow>
     snake_wf (game_snake g)
     \<and> 0 \<le> apple_x (game_apple g) \<and> apple_x (game_apple g) < surface_width g
     \<and> 0 \<le> apple_y (game_apple g) \<and> apple_y (game_apple g) < surface_height g"

text \<open>The cell next to \<open>(x, y)\<close> in a direction, as the loops of the cascade compute it.\<close>

definition cell_towards :: "int \<Rightarrow> int \<Rightarrow> direction \<Rightarrow> int \<times> int" where
  "cell_towards x y d =
     (case d of
        Up \<Rightarrow> (x, y - SIZE) | Down \<Rightarrow> (x, y + SIZE)
      | Left \<Rightarrow> (x - SIZE, y) | Right \<Rightarrow> (x + SIZE, y))"


section \<open>Basic facts\<close>

lemma bind_err_eq_Inr:
  "bind_err m f = Inr r \<longleftrightarrow> (\<exists>v. m = Inr v \<and> f v = Inr r)"
  by (cases m) simp_all

lemma py_get_in_range [simp]: "i < length xs \<Longrightarrow> py_get xs i = Inr (xs ! i)"
  by (simp add: py_get_def)

lemma snake_wf_Snake_init: "snake_wf Snake_init"
  by (simp add: snake_wf_def Snake_init_def)

lemma snake_wf_move [simp]:
  "snake_wf (move_left s) = snake_wf s" "snake_wf (move_right s) = snake_wf s"
  "snake_wf (move_up s) = snake_wf s" "snake_wf (move_down s) = snake_wf s"
  by (simp_all add: snake_wf_def move_left_def move_right_def move_up_def move_down_def)

lemma snake_wf_increase_length:
  "snake_wf s \<Longrightarrow> \<exists>s'. increase_length s = Inr s' \<and> snake_wf s'"
  by (auto simp: snake_wf_def increase_length_def py_last_def)

lemma snake_wf_increase_length_learning:
  "snake_wf s \<Longrightarrow> snake_wf (increase_length_learning s)"
  by (simp add: snake_wf_def increase_length_learning_def)

section \<open>Growth of the body\<close>

text \<open>
  C8. In \<^verbatim>\<open>Utilitybased.py\<close>, growing a snake that has at least one segment adds one to
  the length and appends a copy of the tail cell; the learning variants append the
  placeholder cell \<open>(-1, -1)\<close> instead. In every variant the old segments stay in place.
\<close>

theorem increase_length_appends:
  "(snake_x s \<noteq> [] \<and> snake_y s \<noteq> [] \<longrightarrow>
      increase_length s =
        Inr (s\<lparr>snake_length := snake_length s + 1,
                snake_x := snake_x s @ [last (snake_x s)],
                snake_y := snake_y s @ [last (snake_y s)]\<rparr>))
   \<and> snake_length (increase_length_learning s) = snake_length s + 1
   \<and> snake_x (increase_length_learning s) = snake_x s @ [- 1]
   \<and> snake_y (increase_length_learning s) = snake_y s @ [- 1]
   \<and> snake_direction (increase_length_learning s) = snake_direction s"
  by (simp add: increase_length_def increase_length_learning_def py_last_def)

theorem increase_length_appends_witness:
  "increase_length Snake_init =
     Inr \<lparr>snake_direction = Down, snake_length = 2, snake_x = [40, 40], snake_y = [40, 40]\<rparr>
   \<and> increase_length_learning Snake_init =
     \<lparr>snake_direction = Down, snake_length = 2, snake_x = [40, - 1], snake_y = [40, - 1]\<rparr>"
  using increase_length_appends [of Snake_init]
  by (simp add: Snake_init_def increase_length_learning_def)

theorem increase_length_learning_counterexample:
  "last (snake_x (increase_length_learning Snake_init)) \<noteq> last (snake_x Snake_init)
   \<and> last (snake_y (increase_length_learning Snake_init)) \<noteq> last (snake_y Snake_init)"
  by (simp add: increase_length_learning_def Snake_init_def)

section \<open>The self-collision check skips the segments behind the head\<close>

lemma self_collision_from_wf:
  assumes "snake_wf s" "\<forall>i\<in>set js. i < snake_length s"
  shows "self_collision_from s js =
           Inr (\<exists>i\<in>set js. snake_x s ! 0 = snake_x s ! i \<and> snake_y s ! 0 = snake_y s ! i)"
  using assms
  by (induction js) (auto simp: snake_wf_def is_collision_def)

lemma self_collision_learning_from_wf:
  assumes "snake_wf s" "\<forall>i\<in>set js. i < snake_length s"
  shows "self_collision_learning_from s js =
           Inr (\<exists>i\<in>set js. is_collision_learning (snake_x s ! 0) (snake_y s ! 0)
                                (snake_x s ! i) (snake_y s ! i))"
  using assms
  by (induction js) (auto simp: snake_wf_def)

lemma aligned_overlap:
  assumes "SIZE dvd a" "SIZE dvd b"
  shows "b \<le> a \<and> a < b + SIZE \<longleftrightarrow> a = b"
  using assms unfolding SIZE_def by presburger

lemma is_collision_learning_aligned:
  assumes "SIZE dvd x1" "SIZE dvd x2" "SIZE dvd y1" "SIZE dvd y2"
  shows "is_collision_learning x1 y1 x2 y2 \<longleftrightarrow> x1 = x2 \<and> y1 = y2"
  using aligned_overlap [OF assms(1,2)] aligned_overlap [OF assms(3,4)]
  by (auto simp: is_collision_learning_def)

lemma self_collision_learning_aligned:
  assumes wf: "snake_wf s"
    and al: "\<forall>i<snake_length s. SIZE dvd snake_x s ! i \<and> SIZE dvd snake_y s ! i"
  shows "self_collision_learning s =
           Inr (\<exists>i\<in>{3..<snake_length s}.
                  snake_x s ! 0 = snake_x s ! i \<and> snake_y s ! 0 = snake_y s ! i)"
proof -
  have pos: "0 < snake_length s"
    using wf by (simp add: snake_wf_def)
  have "is_collision_learning (snake_x s ! 0) (snake_y s ! 0) (snake_x s ! i) (snake_y s ! i)
        \<longleftrightarrow> snake_x s ! 0 = snake_x s ! i \<and> snake_y s ! 0 = snake_y s ! i"
    if "i \<in> {3..<snake_length s}" for i
    using that al pos by (intro is_collision_learning_aligned) auto
  then have "(\<exists>i\<in>{3..<snake_length s}.
            is_collision_learning (snake_x s ! 0) (snake_y s ! 0) (snake_x s ! i) (snake_y s ! i))
        \<longleftrightarrow> (\<exists>i\<in>{3..<snake_length s}.
            snake_x s ! 0 = snake_x s ! i \<and> snake_y s ! 0 = snake_y s ! i)"
    by blast
  then show ?thesis
    using self_collision_learning_from_wf [OF wf, of "[3..<snake_length s]"]
    by (simp add: self_collision_learning_def)
qed

text \<open>
  C10. A snake shorter than four segments never reports a self-collision, in both
  variants and without any assumption on the lists. For a well-formed snake the check of
  \<^verbatim>\<open>Utilitybased.py\<close> answers whether the head equals a segment of index 4 or more, and the
  check of \<^verbatim>\<open>Learning.py\<close> whether the head lies in the block of a segment of index 3 or
  more: the segments nearer to the head are never looked at. When all coordinates are
  multiples of the cell size, lying in the block of a segment is being equal to it.
\<close>

theorem self_collision_ignores_near_segments:
  "(snake_length s < 4 \<longrightarrow>
      self_collision s = Inr False \<and> self_collision_learning s = Inr False)
   \<and> (snake_wf s \<longrightarrow>
        self_collision s =
          Inr (\<exists>i\<in>{4..<snake_length s}.
                 snake_x s ! 0 = snake_x s ! i \<and> snake_y s ! 0 = snake_y s ! i)
        \<and> self_collision_learning s =
          Inr (\<exists>i\<in>{3..<snake_length s}.
                 is_collision_learning (snake_x s ! 0) (snake_y s ! 0)
                   (snake_x s ! i) (snake_y s ! i)))
   \<and> (snake_wf s \<and> (\<forall>i<snake_length s. SIZE dvd snake_x s ! i \<and> SIZE dvd snake_y s ! i) \<longrightarrow>
        self_collision_learning s =
          Inr (\<exists>i\<in>{3..<snake_length s}.
                 snake_x s ! 0 = snake_x s ! i \<and> snake_y s ! 0 = snake_y s ! i))"
proof (intro conjI impI)
  assume short: "snake_length s < 4"
  show "self_collision s = Inr False"
    using short by (simp add: self_collision_def)
  have "snake_length s \<le> 3"
    using short by simp
  then show "self_collision_learning s = Inr False"
    unfolding self_collision_learning_def by (simp only: upt_conv_Nil self_collision_learning_from.simps)
next
  assume wf: "snake_wf s"
  show "self_collision s =
          Inr (\<exists>i\<in>{4..<snake_length s}.
                 snake_x s ! 0 = snake_x s ! i \<and> snake_y s ! 0 = snake_y s ! i)"
  proof (cases "snake_length s < 4")
    case True
    then show ?thesis by (simp add: self_collision_def)
  next
    case False
    then show ?thesis
      using self_collision_from_wf [OF wf, of "[4..<snake_length s]"]
      by (simp add: self_collision_def)
  qed
  show "self_collision_learning s =
          Inr (\<exists>i\<in>{3..<snake_length s}.
                 is_collision_learning (snake_x s ! 0) (snake_y s ! 0)
                   (snake_x s ! i) (snake_y s ! i))"
    using self_collision_learning_from_wf [OF wf, of "[3..<snake_length s]"]
    by (simp add: self_collision_learning_def)
next
  assume "snake_wf s \<and> (\<forall>i<snake_length s. SIZE dvd snake_x s ! i \<and> SIZE dvd snake_y s ! i)"
  then show "self_collision_learning s =
          Inr (\<exists>i\<in>{3..<snake_length s}.
                 snake_x s ! 0 = snake_x s ! i \<and> snake_y s ! 0 = snake_y s ! i)"
    using self_collision_learning_aligned by blast
qed

theorem self_collision_ignores_near_segments_witness:
  "self_collision
     \<lparr>snake_direction = Down, snake_length = 3, snake_x = [80, 80, 80], snake_y = [40, 40, 40]\<rparr>
     = Inr False
   \<and> self_collision_learning
     \<lparr>snake_direction = Down, snake_length = 3, snake_x = [80, 80, 80], snake_y = [40, 40, 40]\<rparr>
     = Inr False
   \<and> self_collision
     \<lparr>snake_direction = Down, snake_length = 5,
       snake_x = [80, 80, 80, 80, 120], snake_y = [40, 40, 40, 40, 40]\<rparr>
     = Inr False
   \<and> self_collision_learning
     \<lparr>snake_direction = Down, snake_length = 5,
       snake_x = [80, 80, 80, 80, 120], snake_y = [40, 40, 40, 40, 40]\<rparr>
     = Inr True"
proof -
  let ?short = "\<lparr>snake_direction = Down, snake_length = 3,
                  snake_x = [80, 80, 80], snake_y = [40, 40, 40]\<rparr>"
  let ?long = "\<lparr>snake_direction = Down, snake_length = 5,
                 snake_x = [80, 80, 80, 80, 120], snake_y = [40, 40, 40, 40, 40]\<rparr>"
  have four: "{4..<5::nat} = {4}" and three: "{3..<5::nat} = {3, 4}"
    by auto
  have "snake_length ?short < 4" and "snake_wf ?long"
    by (simp_all add: snake_wf_def)
  then show ?thesis
    using self_collision_ignores_near_segments [of ?short]
      self_collision_ignores_near_segments [of ?long]
    by (simp add: four three is_collision_learning_def SIZE_def)
qed

section \<open>The learning agent's update and action choice\<close>

lemma first_index_less: "a \<in> set xs \<Longrightarrow> first_index xs a < length xs"
  unfolding first_index_def by (induction xs) auto

lemma first_index_nth: "a \<in> set xs \<Longrightarrow> xs ! first_index xs a = a"
  unfolding first_index_def by (induction xs) auto


lemma np_max_eq: "v \<noteq> [] \<Longrightarrow> np_max v = Inr (Max (set v))"
  by (cases v) (simp_all add: np_max_def Max.set_eq_fold del: set_simps)

lemma q_values_length: "table_ok ag \<Longrightarrow> length (q_values ag k) = length (actions ag)"
  by (auto simp: table_ok_def q_values_def np_zeros_def split: option.splits)

lemma learn_result:
  assumes ok: "table_ok ag" and a: "action \<in> set (actions ag)"
  shows "learn ag state action reward next_state =
     Inr (ag\<lparr>q_table :=
       (\<lambda>k. if k = state then
               Some ((q_values ag state)[first_index (actions ag) action :=
                  q_values ag state ! first_index (actions ag) action
                  + lr ag * ((case next_state of None \<Rightarrow> reward
                       | Some ns \<Rightarrow> reward + gamma ag * Max (set (q_values ag ns)))
                             - q_values ag state ! first_index (actions ag) action)])
             else if Some k = next_state then Some (q_values ag k)
             else q_table ag k)\<rparr>)"
proof -
  have i: "first_index (actions ag) action < length (actions ag)"
    using a by (rule first_index_less)
  have len: "\<And>k. length (q_values ag k) = length (actions ag)"
    using ok by (rule q_values_length)
  have ne: "\<And>k. q_values ag k \<noteq> []"
    using len a by (metis length_0_conv empty_iff empty_set)
  define q1 where "q1 = (if q_table ag state = None
                then (q_table ag)(state \<mapsto> np_zeros (length (actions ag)))
                else q_table ag)"
  define q2 where "q2 = (case next_state of
                  None \<Rightarrow> q1
                | Some ns \<Rightarrow>
                    if q1 ns = None then q1(ns \<mapsto> np_zeros (length (actions ag))) else q1)"
  have q2_eq: "q2 = (\<lambda>k. if k = state \<or> Some k = next_state then Some (q_values ag k)
                         else q_table ag k)"
    by (auto simp: q1_def q2_def fun_eq_iff q_values_def split: option.splits)
  have unfolded: "learn ag state action reward next_state =
        bind_err (py_index (actions ag) action) (\<lambda>action_index.
        bind_err (py_lookup q2 state) (\<lambda>row.
        bind_err (py_get row action_index) (\<lambda>predict.
        bind_err (case next_state of
                    None \<Rightarrow> Inr reward
                  | Some ns \<Rightarrow>
                      bind_err (py_lookup q2 ns) (\<lambda>next_row.
                      bind_err (np_max next_row) (\<lambda>m.
                        Inr (reward + gamma ag * m)))) (\<lambda>target.
          Inr (ag\<lparr>q_table :=
                 q2(state \<mapsto> row[action_index := predict + lr ag * (target - predict)])\<rparr>)))))"
    unfolding learn_def Let_def q1_def q2_def ..
  have target: "(case next_state of
                    None \<Rightarrow> Inr reward
                  | Some ns \<Rightarrow>
                      bind_err (py_lookup q2 ns) (\<lambda>next_row.
                      bind_err (np_max next_row) (\<lambda>m.
                        Inr (reward + gamma ag * m))))
       = Inr (case next_state of None \<Rightarrow> reward
                       | Some ns \<Rightarrow> reward + gamma ag * Max (set (q_values ag ns)))"
    using ne by (simp add: q2_eq py_lookup_def np_max_eq split: option.splits)
  show ?thesis
    unfolding unfolded target
    using i a len[of state]
    by (simp add: py_index_def py_lookup_def q2_eq fun_eq_iff)
qed


text \<open>
  C5. For a table whose stored vectors have one entry per action and an action of the
  agent's list, \<^verbatim>\<open>learn\<close> returns normally. With a next state the entry of the action moves
  by \<open>lr * (reward + gamma * max Q[s'] - Q[s][a])\<close>, the maximum being taken over the values
  of the next state before the update (an unseen state reads as all zeros); with no next
  state the entry moves by \<open>lr * (reward - Q[s][a])\<close>, whatever the table holds elsewhere.
  No other state's values change.
\<close>

theorem learn_update:
  assumes ok: "table_ok ag" and a: "action \<in> set (actions ag)"
  shows "(\<exists>ag'. learn ag state action reward (Some ns) = Inr ag'
           \<and> q_values ag' state =
               (q_values ag state)[first_index (actions ag) action :=
                  q_values ag state ! first_index (actions ag) action
                  + lr ag * (reward + gamma ag * Max (set (q_values ag ns))
                             - q_values ag state ! first_index (actions ag) action)]
           \<and> (\<forall>k. k \<noteq> state \<longrightarrow> q_values ag' k = q_values ag k))
    \<and> (\<exists>ag'. learn ag state action reward None = Inr ag'
           \<and> q_values ag' state =
               (q_values ag state)[first_index (actions ag) action :=
                  q_values ag state ! first_index (actions ag) action
                  + lr ag * (reward - q_values ag state ! first_index (actions ag) action)]
           \<and> (\<forall>k. k \<noteq> state \<longrightarrow> q_values ag' k = q_values ag k))"
  unfolding learn_result [OF ok a]
  by (simp add: q_values_def split: option.splits)

theorem learn_update_witness:
  "map_sum id (\<lambda>ag'. q_values ag' (1, 0, 3))
     (learn \<lparr>q_table = [(1, 1, 3) \<mapsto> [1, 2, 4, 3]], actions = [''left'', ''right'', ''up'', ''down''],
              lr = 1 / 10, gamma = 9 / 10, epsilon = 1 / 5\<rparr>
        (1::int, 0::int, 3::int) ''right'' 10 (Some (1, 1, 3)))
     = Inr [0, 34 / 25, 0, 0]
   \<and> map_sum id (\<lambda>ag'. q_values ag' (1, 1, 3))
     (learn \<lparr>q_table = [(1, 1, 3) \<mapsto> [1, 2, 4, 3]], actions = [''left'', ''right'', ''up'', ''down''],
              lr = 1 / 10, gamma = 9 / 10, epsilon = 1 / 5\<rparr>
        (1::int, 1::int, 3::int) ''up'' (- 10) None)
     = Inr [1, 2, 13 / 5, 3]"
proof -
  let ?ag = "\<lparr>q_table = [(1::int, 1::int, 3::int) \<mapsto> [1, 2, 4, 3::real]],
              actions = [''left'', ''right'', ''up'', ''down''],
              lr = 1 / 10, gamma = 9 / 10, epsilon = 1 / 5\<rparr>"
  have ok: "table_ok ?ag"
    by (simp add: table_ok_def)
  have r: "''right'' \<in> set (actions ?ag)" and u: "''up'' \<in> set (actions ?ag)"
    by simp_all
  have ir: "first_index (actions ?ag) ''right'' = 1" and iu: "first_index (actions ?ag) ''up'' = 2"
    by (simp_all add: first_index_def)
  have q0: "q_values ?ag (1, 0, 3) = [0, 0, 0, 0]" and q1: "q_values ?ag (1, 1, 3) = [1, 2, 4, 3]"
    by (simp_all add: q_values_def np_zeros_def numeral_eq_Suc)
  obtain ag1 where 1: "learn ?ag (1, 0, 3) ''right'' 10 (Some (1, 1, 3)) = Inr ag1"
    and v1: "q_values ag1 (1, 0, 3) = [0, 0, 0, 0][1 := 0 + 1 / 10 * (10 + 9 / 10 * Max (set [1, 2, 4, 3]) - 0)]"
    using learn_update [OF ok r, of "(1, 0, 3)" 10 "(1, 1, 3)"]
    unfolding ir q0 q1 by auto
  obtain ag2 where 2: "learn ?ag (1, 1, 3) ''up'' (- 10) None = Inr ag2"
    and v2: "q_values ag2 (1, 1, 3) = [1, 2, 4, 3][2 := 4 + 1 / 10 * (- 10 - 4)]"
    using learn_update [OF ok u, of "(1, 1, 3)" "- 10" "(1, 1, 3)"]
    unfolding iu q1 by auto
  show ?thesis
    unfolding 1 2 by (simp add: v1 v2)
qed

text \<open>
  C7. With learning rate zero, \<^verbatim>\<open>learn\<close> changes no action value: every state reads as
  before. The table itself gains all-zero vectors for the state and the next state when
  they were not stored; when both were stored (or the transition is terminal and the
  state was stored), the agent is unchanged.
\<close>

theorem learn_zero_rate:
  assumes ok: "table_ok ag" and a: "action \<in> set (actions ag)" and zero: "lr ag = 0"
  shows "\<exists>ag'. learn ag state action reward next_state = Inr ag'
           \<and> (\<forall>k. q_values ag' k = q_values ag k)
           \<and> (\<forall>k. q_table ag' k =
                  (if k = state \<or> Some k = next_state then Some (q_values ag k) else q_table ag k))
           \<and> (q_table ag state \<noteq> None \<and> (\<forall>ns. next_state = Some ns \<longrightarrow> q_table ag ns \<noteq> None)
                \<longrightarrow> ag' = ag)"
proof -
  have same: "ag\<lparr>q_table := t\<rparr> = ag" if "t = q_table ag" for t
    using that by simp
  show ?thesis
    unfolding learn_result [OF ok a]
    by (auto simp: zero q_values_def intro!: same split: option.splits)
qed


theorem learn_zero_rate_witness:
  "learn \<lparr>q_table = [(1, 1, 3) \<mapsto> [1, 2, 4, 3], (1, 0, 3) \<mapsto> [0, 5, 0, 0]],
           actions = [''left'', ''right'', ''up'', ''down''],
           lr = 0, gamma = 9 / 10, epsilon = 1 / 5\<rparr>
        (1::int, 0::int, 3::int) ''right'' 10 (Some (1, 1, 3))
     = Inr \<lparr>q_table = [(1, 1, 3) \<mapsto> [1, 2, 4, 3], (1, 0, 3) \<mapsto> [0, 5, 0, 0]],
           actions = [''left'', ''right'', ''up'', ''down''],
           lr = 0, gamma = 9 / 10, epsilon = 1 / 5\<rparr>"
proof -
  let ?ag = "\<lparr>q_table = [(1::int, 1::int, 3::int) \<mapsto> [1, 2, 4, 3::real], (1, 0, 3) \<mapsto> [0, 5, 0, 0]],
           actions = [''left'', ''right'', ''up'', ''down''],
           lr = 0, gamma = 9 / 10, epsilon = 1 / 5\<rparr>"
  have ok: "table_ok ?ag"
    by (simp add: table_ok_def)
  have r: "''right'' \<in> set (actions ?ag)" and z: "lr ?ag = 0"
    by simp_all
  show ?thesis
    using learn_zero_rate [OF ok r z, of "(1, 0, 3)" 10 "Some (1, 1, 3)"]
    by auto
qed

theorem learn_zero_rate_counterexample:
  "q_table \<lparr>q_table = Map.empty, actions = [''left'', ''right'', ''up'', ''down''],
             lr = 0, gamma = 9 / 10, epsilon = 1 / 5\<rparr> (1::int, 0::int, 3::int) = None
   \<and> map_sum id (\<lambda>ag'. q_table ag' (1, 0, 3))
        (learn \<lparr>q_table = Map.empty, actions = [''left'', ''right'', ''up'', ''down''],
                 lr = 0, gamma = 9 / 10, epsilon = 1 / 5\<rparr>
           (1::int, 0::int, 3::int) ''left'' 0 (Some (1, 1, 3)))
      = Inr (Some [0, 0, 0, 0])"
  by (simp add: learn_def Let_def py_index_def first_index_def py_lookup_def np_max_def
      np_zeros_def numeral_eq_Suc)


lemma fold_max_zeros: "fold max (replicate m 0) (0::real) = 0"
  by (induction m) (simp_all del: fold_replicate)

lemma np_argmax_zeros: "0 < n \<Longrightarrow> np_argmax (np_zeros n) = Inr 0"
  by (cases n) (simp_all add: np_argmax_def np_zeros_def first_index_def fold_max_zeros del: fold_replicate)


text \<open>
  C6. For a state that is not stored, \<^verbatim>\<open>choose_action\<close> returns the randomly drawn action,
  whatever \<open>epsilon\<close> is, and every position of the action list is the outcome of some
  draw. With \<open>epsilon = 0\<close> and a stored state the result is the action at the first largest
  entry of the stored vector, whatever the random draws are; for a stored all-zero
  vector this is the first action of the list.
\<close>

theorem choose_action_cases:
  "(q_table ag state = None \<longrightarrow>
      choose_action ag state rand_u rand_k = random_choice (actions ag) rand_k)
   \<and> (epsilon ag = 0 \<and> 0 \<le> rand_u \<and> q_table ag state = Some v \<longrightarrow>
        choose_action ag state rand_u rand_k = bind_err (np_argmax v) (py_get (actions ag)))
   \<and> (epsilon ag = 0 \<and> 0 \<le> rand_u \<and> actions ag \<noteq> []
        \<and> q_table ag state = Some (np_zeros (length (actions ag))) \<longrightarrow>
        choose_action ag state rand_u rand_k = Inr (actions ag ! 0))
   \<and> (actions ag \<noteq> [] \<longrightarrow>
        random_choice (actions ag) rand_k = Inr (actions ag ! (rand_k mod length (actions ag))))"
  by (auto simp: choose_action_def py_lookup_def np_argmax_zeros random_choice_def)

theorem choose_action_cases_witness:
  "choose_action \<lparr>q_table = [(1, 0, 3) \<mapsto> [0, 0, 0, 0]],
                    actions = [''left'', ''right'', ''up'', ''down''],
                    lr = 1 / 10, gamma = 9 / 10, epsilon = 0\<rparr>
       (1::int, 0::int, 3::int) (1 / 2) 2 = Inr ''left''
   \<and> choose_action \<lparr>q_table = [(1, 0, 3) \<mapsto> [0, 0, 0, 0]],
                    actions = [''left'', ''right'', ''up'', ''down''],
                    lr = 1 / 10, gamma = 9 / 10, epsilon = 0\<rparr>
       (1::int, 1::int, 3::int) (1 / 2) 2 = Inr ''up''"
proof -
  let ?ag = "\<lparr>q_table = [(1::int, 0::int, 3::int) \<mapsto> [0, 0, 0, 0::real]],
                    actions = [''left'', ''right'', ''up'', ''down''],
                    lr = 1 / 10, gamma = 9 / 10, epsilon = 0\<rparr>"
  have zeros: "np_zeros (length (actions ?ag)) = [0, 0, 0, 0]"
    by (simp add: np_zeros_def numeral_eq_Suc)
  show ?thesis
    using choose_action_cases [of ?ag "(1, 0, 3)" "1 / 2" 2 "[]"]
      choose_action_cases [of ?ag "(1, 1, 3)" "1 / 2" 2 "[]"]
    unfolding zeros by simp
qed

theorem choose_action_unseen_counterexample:
  "choose_action \<lparr>q_table = Map.empty, actions = [''left'', ''right'', ''up'', ''down''],
                    lr = 1 / 10, gamma = 9 / 10, epsilon = 0\<rparr>
       (1::int, 0::int, 3::int) (1 / 2) 0 = Inr ''left''
   \<and> choose_action \<lparr>q_table = Map.empty, actions = [''left'', ''right'', ''up'', ''down''],
                    lr = 1 / 10, gamma = 9 / 10, epsilon = 0\<rparr>
       (1::int, 0::int, 3::int) (1 / 2) 1 = Inr ''right''"
  by (simp add: choose_action_def random_choice_def)

section \<open>Relocating the goal when the body fills the grid\<close>

lemma valid_positions_covered:
  "set (valid_positions a []) \<subseteq> set ps \<Longrightarrow> valid_positions a ps = []"
  by (auto simp: valid_positions_def)

lemma randint_bounds:
  assumes "a \<le> b"
  shows "\<exists>i. randint a b k = Inr i \<and> a \<le> i \<and> i \<le> b"
proof -
  have "int k mod (b - a + 1) < b - a + 1"
    by (rule pos_mod_bound) (use assms in simp)
  moreover have "0 \<le> int k mod (b - a + 1)"
    by (rule pos_mod_sign) (use assms in simp)
  ultimately show ?thesis
    using assms by (simp add: randint_def zmod_int)
qed

lemma py_range_on_grid:
  assumes "x \<in> set (py_range 0 (w - SIZE) SIZE)"
  shows "\<exists>i\<in>{0..w div SIZE - 1}. x = i * SIZE"
proof -
  have "x \<in> (\<lambda>k. 0 + int k * SIZE) ` set [0..<nat ((w - SIZE - 0 + SIZE - 1) div SIZE)]"
    using assms unfolding py_range_def set_map .
  then obtain k where "k \<in> set [0..<nat ((w - SIZE - 0 + SIZE - 1) div SIZE)]"
      and kx: "x = 0 + int k * SIZE"
    by (rule imageE)
  then have k: "x = int k * SIZE" "k < nat ((w - SIZE + SIZE - 1) div SIZE)"
    by simp_all
  have "int k < (w - 1) div SIZE"
    using k(2) by simp
  also have "\<dots> \<le> w div SIZE"
    by (simp add: SIZE_def zdiv_mono1)
  finally have "int k \<in> {0..w div SIZE - 1}"
    by simp
  then show ?thesis
    using k(1) by blast
qed

lemma in_grid_cells:
  "c \<in> set (grid_cells a) \<longleftrightarrow>
     (\<exists>i j. 0 \<le> i \<and> i < apple_grid_width a \<and> 0 \<le> j \<and> j < apple_grid_height a
            \<and> c = (i * SIZE, j * SIZE))"
  unfolding grid_cells_def by force

lemma candidates_on_grid:
  assumes "apple_wf a"
  shows "set (valid_positions a []) \<subseteq> set (grid_cells a)"
proof
  fix c assume "c \<in> set (valid_positions a [])"
  then obtain x y where c: "c = (x, y)"
      "x \<in> set (py_range 0 (apple_screen_width a - SIZE) SIZE)"
      "y \<in> set (py_range 0 (apple_screen_height a - SIZE) SIZE)"
    by (auto simp: valid_positions_def)
  obtain i j where "i \<in> {0..apple_grid_width a - 1}" "x = i * SIZE"
      "j \<in> {0..apple_grid_height a - 1}" "y = j * SIZE"
    using py_range_on_grid [OF c(2)] py_range_on_grid [OF c(3)] assms
    by (auto simp: apple_wf_def)
  then show "c \<in> set (grid_cells a)"
    unfolding in_grid_cells c(1) by auto
qed

lemma grid_full_exhausted:
  assumes "apple_wf a" "set (grid_cells a) \<subseteq> set ps"
  shows "valid_positions a ps = []"
  using candidates_on_grid [OF assms(1)] assms(2)
  by (intro valid_positions_covered) blast

text \<open>
  C9. When the body occupies every cell of the grid, no candidate cell is free. When no
  candidate cell is free, \<^verbatim>\<open>Apple.move\<close> returns normally: the goal is placed on a cell
  of the grid, inside the screen, chosen by the two random draws. Nothing but the position
  changes, so the caller is told nothing about the exhaustion.
\<close>

theorem Apple_move_exhausted:
  assumes wf: "apple_wf a"
  shows "(set (grid_cells a) \<subseteq> set (case snake_positions of None \<Rightarrow> [] | Some ps \<Rightarrow> ps) \<longrightarrow>
            valid_positions a (case snake_positions of None \<Rightarrow> [] | Some ps \<Rightarrow> ps) = [])
         \<and> (valid_positions a (case snake_positions of None \<Rightarrow> [] | Some ps \<Rightarrow> ps) = [] \<longrightarrow>
              (\<exists>i j. Apple_move a snake_positions rand_c rand_x rand_y =
                  Inr (a\<lparr>apple_x := i * SIZE, apple_y := j * SIZE\<rparr>)
                \<and> (i * SIZE, j * SIZE) \<in> set (grid_cells a)
                \<and> 0 \<le> i \<and> i < apple_grid_width a \<and> 0 \<le> j \<and> j < apple_grid_height a
                \<and> 0 \<le> i * SIZE \<and> i * SIZE + SIZE \<le> apple_screen_width a
                \<and> 0 \<le> j * SIZE \<and> j * SIZE + SIZE \<le> apple_screen_height a))"
proof (intro conjI impI)
  assume "set (grid_cells a) \<subseteq> set (case snake_positions of None \<Rightarrow> [] | Some ps \<Rightarrow> ps)"
  then show "valid_positions a (case snake_positions of None \<Rightarrow> [] | Some ps \<Rightarrow> ps) = []"
    by (rule grid_full_exhausted [OF wf])
next
  assume none: "valid_positions a (case snake_positions of None \<Rightarrow> [] | Some ps \<Rightarrow> ps) = []"
  have gw: "0 \<le> apple_grid_width a - 1" and gh: "0 \<le> apple_grid_height a - 1"
    using wf by (simp_all add: apple_wf_def SIZE_def pos_imp_zdiv_pos_iff)
  obtain i where i: "randint 0 (apple_grid_width a - 1) rand_x = Inr i"
      "0 \<le> i" "i \<le> apple_grid_width a - 1"
    using randint_bounds [OF gw] by blast
  obtain j where j: "randint 0 (apple_grid_height a - 1) rand_y = Inr j"
      "0 \<le> j" "j \<le> apple_grid_height a - 1"
    using randint_bounds [OF gh] by blast
  have "i * SIZE + SIZE \<le> apple_screen_width a"
    using i wf unfolding apple_wf_def SIZE_def by linarith
  moreover have "j * SIZE + SIZE \<le> apple_screen_height a"
    using j wf unfolding apple_wf_def SIZE_def by linarith
  moreover have "(i * SIZE, j * SIZE) \<in> set (grid_cells a)"
    unfolding in_grid_cells using i j by auto
  moreover have "Apple_move a snake_positions rand_c rand_x rand_y =
                  Inr (a\<lparr>apple_x := i * SIZE, apple_y := j * SIZE\<rparr>)"
    using i j none by (simp add: Apple_move_def Let_def)
  ultimately show "\<exists>i j. Apple_move a snake_positions rand_c rand_x rand_y =
                  Inr (a\<lparr>apple_x := i * SIZE, apple_y := j * SIZE\<rparr>)
                \<and> (i * SIZE, j * SIZE) \<in> set (grid_cells a)
                \<and> 0 \<le> i \<and> i < apple_grid_width a \<and> 0 \<le> j \<and> j < apple_grid_height a
                \<and> 0 \<le> i * SIZE \<and> i * SIZE + SIZE \<le> apple_screen_width a
                \<and> 0 \<le> j * SIZE \<and> j * SIZE + SIZE \<le> apple_screen_height a"
    using i j by (intro exI [of _ i] exI [of _ j]) (simp add: SIZE_def)
qed

theorem Apple_move_exhausted_witness:
  "Apple_move (Apple_init 120 120)
     (Some [(0, 0), (0, 40), (0, 80), (40, 0), (40, 40), (40, 80), (80, 0), (80, 40), (80, 80)])
     7 5 1
     = Inr ((Apple_init 120 120)\<lparr>apple_x := 80, apple_y := 40\<rparr>)"
proof -
  let ?body = "[(0, 0), (0, 40), (0, 80), (40, 0), (40, 40), (40, 80), (80, 0), (80, 40), (80, 80)]
                 :: (int \<times> int) list"
  have wf: "apple_wf (Apple_init 120 120)"
    by (simp add: apple_wf_def Apple_init_def SIZE_def)
  have cells: "grid_cells (Apple_init 120 120) = ?body"
    by code_simp
  have full: "set (grid_cells (Apple_init 120 120))
                \<subseteq> set (case Some ?body of None \<Rightarrow> [] | Some ps \<Rightarrow> ps)"
    unfolding cells by simp
  have grid: "apple_grid_width (Apple_init 120 120) = 3"
      "apple_grid_height (Apple_init 120 120) = 3"
    by (simp_all add: Apple_init_def SIZE_def)
  have none: "valid_positions (Apple_init 120 120) ?body = []"
    using Apple_move_exhausted [OF wf, of "Some ?body"] full by simp
  show ?thesis
    by (simp add: Apple_move_def Let_def none randint_def grid SIZE_def)
qed

lemma valid_all_nth: "valid_positions (Apple_init 1000 800) [] ! 19 = (40, 0)"
  by code_simp

lemma valid_all_len: "length (valid_positions (Apple_init 1000 800) []) = 456"
  by code_simp

theorem Apple_move_silent_counterexample:
  "grid_cells (Apple_init 1000 800) = [(i * 40, j * 40). i \<leftarrow> [0..24], j \<leftarrow> [0..19]]
   \<and> length [(i * 40, j * 40). i \<leftarrow> [0..24::int], j \<leftarrow> [0..19::int]] = 500
   \<and> valid_positions (Apple_init 1000 800) [(i * 40, j * 40). i \<leftarrow> [0..24], j \<leftarrow> [0..19]] = []
   \<and> Apple_move (Apple_init 1000 800) (Some [(i * 40, j * 40). i \<leftarrow> [0..24], j \<leftarrow> [0..19]]) 0 1 0
       = Inr ((Apple_init 1000 800)\<lparr>apple_x := 40, apple_y := 0\<rparr>)
   \<and> Apple_move (Apple_init 1000 800) (Some []) 19 0 0
       = Inr ((Apple_init 1000 800)\<lparr>apple_x := 40, apple_y := 0\<rparr>)"
proof -
  let ?body = "[(i * 40, j * 40). i \<leftarrow> [0..24], j \<leftarrow> [0..19]] :: (int \<times> int) list"
  have wf: "apple_wf (Apple_init 1000 800)"
    by (simp add: apple_wf_def Apple_init_def SIZE_def)
  have grid: "apple_grid_width (Apple_init 1000 800) = 25"
      "apple_grid_height (Apple_init 1000 800) = 20"
    by (simp_all add: Apple_init_def SIZE_def)
  have cells: "grid_cells (Apple_init 1000 800) = ?body"
    by (simp add: grid_cells_def grid SIZE_def)
  have len: "length ?body = 500"
    by code_simp
  have none: "valid_positions (Apple_init 1000 800) ?body = []"
    by (rule grid_full_exhausted [OF wf]) (simp add: cells)
  have ne: "valid_positions (Apple_init 1000 800) [] \<noteq> []"
    using valid_all_len by auto
  have 1: "Apple_move (Apple_init 1000 800) (Some ?body) 0 1 0
       = Inr ((Apple_init 1000 800)\<lparr>apple_x := 40, apple_y := 0\<rparr>)"
    by (simp add: Apple_move_def none Let_def randint_def grid SIZE_def)
  have 2: "Apple_move (Apple_init 1000 800) (Some []) 19 0 0
       = Inr ((Apple_init 1000 800)\<lparr>apple_x := 40, apple_y := 0\<rparr>)"
    using ne by (simp add: Apple_move_def Let_def random_choice_def valid_all_len valid_all_nth)
  show ?thesis
    using cells len none 1 2 by (intro conjI)
qed

section \<open>Correctness of the breadth-first search\<close>

lemma body_collide_wf:
  assumes "length (snake_x s) = snake_length s" "length (snake_y s) = snake_length s"
    "\<forall>i\<in>set js. i < snake_length s"
  shows "body_collide s x y js = Inr (\<exists>i\<in>set js. x = snake_x s ! i \<and> y = snake_y s ! i)"
  using assms by (induction js) auto

lemma would_collide_wf:
  assumes "snake_wf (game_snake g)"
  shows "would_collide g x y = Inr (blocked g (x, y))"
proof -
  have "body_collide (game_snake g) x y [1..<snake_length (game_snake g)] =
      Inr (\<exists>i\<in>set [1..<snake_length (game_snake g)].
             x = snake_x (game_snake g) ! i \<and> y = snake_y (game_snake g) ! i)"
    using assms by (intro body_collide_wf) (simp_all add: snake_wf_def)
  then show ?thesis
    by (auto simp: would_collide_def blocked_def)
qed

lemma get_neighbors_loop_wf:
  assumes "snake_wf (game_snake g)"
  shows "get_neighbors_loop g x y ds =
           Inr (filter (\<lambda>c. \<not> blocked g c) (map (\<lambda>(dx, dy). (x + dx, y + dy)) ds))"
proof (induction ds)
  case Nil
  then show ?case by simp
next
  case (Cons d ds)
  obtain dx dy where d: "d = (dx, dy)" by (cases d)
  show ?case
    using Cons by (auto simp: d Let_def would_collide_wf [OF assms] blocked_def)
qed

lemma get_neighbors_wf:
  assumes "snake_wf (game_snake g)"
  shows "get_neighbors g x y = Inr (filter (\<lambda>c. \<not> blocked g c) (four_neighbours (x, y)))"
  unfolding get_neighbors_def get_neighbors_loop_wf [OF assms]
  by (simp add: deltas_def four_neighbours_def)

lemma free_step_iff:
  "free_step g c c' \<longleftrightarrow> c' \<in> set (filter (\<lambda>c. \<not> blocked g c) (four_neighbours c))"
  by (auto simp: free_step_def)

lemma set_fresh: "set (fresh ns visited) = set ns - visited"
  by (induction ns arbitrary: visited) auto

lemma visit_neighbors_eq:
  "visit_neighbors ns path queue visited =
     (queue @ map (\<lambda>n. (fst n, snd n, path @ [n])) (fresh ns visited), visited \<union> set ns)"
proof (induction ns arbitrary: queue visited)
  case Nil
  then show ?case by simp
next
  case (Cons n ns)
  obtain nx ny where n: "n = (nx, ny)" by (cases n)
  show ?case
    by (auto simp: n Cons)
qed

lemma walk_append:
  "walk g (p @ q) \<longleftrightarrow>
     (if p = [] then walk g q else if q = [] then walk g p
      else walk g p \<and> free_step g (last p) (hd q) \<and> walk g q)"
proof (induction p rule: walk.induct)
  case (1 g)
  then show ?case by simp
next
  case (2 g c)
  then show ?case by (cases q) auto
next
  case (3 g c c' cs)
  then show ?case by auto
qed

lemma walk_snoc:
  "walk g p \<Longrightarrow> free_step g (last p) n \<Longrightarrow> walk g (p @ [n])"
  by (auto simp: walk_append)

lemma walk_nonempty: "walk g p \<Longrightarrow> p \<noteq> []"
  by auto

lemma split_at_border:
  assumes "p \<noteq> []" "hd p \<in> V" "last p \<notin> V"
  shows "\<exists>p1 p2. p = p1 @ p2 \<and> p1 \<noteq> [] \<and> p2 \<noteq> [] \<and> last p1 \<in> V \<and> hd p2 \<notin> V"
  using assms
proof (induction p)
  case Nil
  then show ?case by simp
next
  case (Cons c cs)
  show ?case
  proof (cases "cs = []")
    case True
    with Cons.prems show ?thesis by simp
  next
    case False
    show ?thesis
    proof (cases "hd cs \<in> V")
      case True
      with Cons False obtain p1 p2 where
        "cs = p1 @ p2" "p1 \<noteq> []" "p2 \<noteq> []" "last p1 \<in> V" "hd p2 \<notin> V"
        by auto
      then have "c # cs = (c # p1) @ p2 \<and> c # p1 \<noteq> [] \<and> p2 \<noteq> [] \<and> last (c # p1) \<in> V \<and> hd p2 \<notin> V"
        by simp
      then show ?thesis by blast
    next
      case hd_out: False
      have "c # cs = [c] @ cs \<and> [c] \<noteq> [] \<and> cs \<noteq> [] \<and> last [c] \<in> V \<and> hd cs \<notin> V"
        using Cons.prems False hd_out by simp
      then show ?thesis by blast
    qed
  qed
qed

lemma bfs_inv_init: "bfs_inv g (sx, sy) [(sx, sy, [(sx, sy)])] {(sx, sy)}"
proof -
  have "length q \<ge> 1" if "walk g q" for q
    using that by (cases q) auto
  then show ?thesis
    by (auto simp: bfs_inv_def shortest_walk_def walk_from_to_def entry_cell_def entry_path_def)
qed

lemma frontier:
  assumes inv: "bfs_inv g start (e # rest) visited"
    and n: "n \<notin> visited" and q: "walk_from_to g start n q"
  shows "Suc (length (entry_path e)) \<le> length q"
proof -
  have q_ne: "q \<noteq> []" and hd_in: "hd q \<in> visited" and last_out: "last q \<notin> visited"
    using inv n q by (auto simp: bfs_inv_def walk_from_to_def)
  then obtain q1 q2 where split: "q = q1 @ q2" "q1 \<noteq> []" "q2 \<noteq> []"
      and u: "last q1 \<in> visited" and out: "hd q2 \<notin> visited"
    using split_at_border [of q visited] by blast
  have w: "walk g q1" "free_step g (last q1) (hd q2)"
    using q split by (auto simp: walk_from_to_def walk_append)
  have "last q1 \<in> entry_cell ` set (e # rest)"
    using inv u out w(2) unfolding bfs_inv_def by blast
  then obtain e' where e': "e' \<in> set (e # rest)" "entry_cell e' = last q1"
    by (metis imageE)
  have "walk_from_to g start (entry_cell e') q1"
    using w(1) q split e'(2) by (simp add: walk_from_to_def)
  then have 1: "length (entry_path e') \<le> length q1"
    using inv e'(1) unfolding bfs_inv_def shortest_walk_def by blast
  have "sorted (map (\<lambda>e. length (entry_path e)) (e # rest))"
    using inv by (simp add: bfs_inv_def)
  then have 2: "length (entry_path e) \<le> length (entry_path e')"
    using e'(1) by auto
  have "length q1 < length q"
    using split by simp
  with 1 2 show ?thesis by simp
qed

lemma sorted_map_const: "(\<forall>x\<in>set xs. f x = (c::nat)) \<Longrightarrow> sorted (map f xs)"
  by (induction xs) auto

lemma sorted_map_append:
  fixes f :: "'a \<Rightarrow> nat"
  assumes "sorted (map f xs)" "sorted (map f ys)"
    and "\<And>a b. a \<in> set xs \<Longrightarrow> b \<in> set ys \<Longrightarrow> f a \<le> f b"
  shows "sorted (map f (xs @ ys))"
  using assms by (auto simp: sorted_append)

lemma bfs_inv_step:
  assumes inv: "bfs_inv g start (e # rest) visited"
    and ns: "ns = filter (\<lambda>c. \<not> blocked g c) (four_neighbours (entry_cell e))"
    and vis: "visit_neighbors ns (entry_path e) rest visited = (queue', visited')"
  shows "bfs_inv g start queue' visited'"
proof -
  let ?new = "map (\<lambda>n. (fst n, snd n, entry_path e @ [n])) (fresh ns visited)"
  have q': "queue' = rest @ ?new" and v': "visited' = visited \<union> set ns"
    using vis by (simp_all add: visit_neighbors_eq)
  have e_walk: "walk_from_to g start (entry_cell e) (entry_path e)"
    using inv by (simp add: bfs_inv_def shortest_walk_def)
  have step: "free_step g (entry_cell e) n \<longleftrightarrow> n \<in> set ns" for n
    by (simp add: ns free_step_iff)
  have sorted_old: "sorted (map (\<lambda>e. length (entry_path e)) (e # rest))"
    and bound_old: "\<forall>e'\<in>set (e # rest). length (entry_path e') \<le> Suc (length (entry_path e))"
    using inv by (simp_all add: bfs_inv_def)
  have lower: "length (entry_path e) \<le> length (entry_path e')" if "e' \<in> set rest" for e'
    using sorted_old that by auto
  have new_len: "length (entry_path e') = Suc (length (entry_path e))" if "e' \<in> set ?new" for e'
    using that by (auto simp: entry_path_def)
  have new_short: "shortest_walk g start (entry_cell e') (entry_path e') \<and> entry_cell e' \<in> visited'"
    if new: "e' \<in> set ?new" for e'
  proof -
    obtain n where "n \<in> set (fresh ns visited)" and n3: "e' = (fst n, snd n, entry_path e @ [n])"
      using new unfolding set_map by blast
    then have n: "n \<in> set ns" "n \<notin> visited" "e' = (fst n, snd n, entry_path e @ [n])"
      by (simp_all add: set_fresh)
    have cell: "entry_cell e' = n" and path: "entry_path e' = entry_path e @ [n]"
      using n(3) by (simp_all add: entry_cell_def entry_path_def)
    have "walk_from_to g start n (entry_path e @ [n])"
      using e_walk n(1) step [of n]
      by (auto simp: walk_from_to_def walk_append)
    moreover have "length (entry_path e @ [n]) \<le> length q" if "walk_from_to g start n q" for q
      using frontier [OF inv n(2) that] by simp
    ultimately show ?thesis
      using n(1) by (simp add: cell path shortest_walk_def v')
  qed
  have 1: "start \<in> visited'"
    using inv by (simp add: bfs_inv_def v')
  have 2: "\<forall>e'\<in>set queue'. shortest_walk g start (entry_cell e') (entry_path e') \<and> entry_cell e' \<in> visited'"
  proof
    fix e' assume "e' \<in> set queue'"
    then consider "e' \<in> set rest" | "e' \<in> set ?new"
      by (auto simp: q')
    then show "shortest_walk g start (entry_cell e') (entry_path e') \<and> entry_cell e' \<in> visited'"
    proof cases
      case 1
      then show ?thesis using inv by (simp add: bfs_inv_def v')
    next
      case 2
      then show ?thesis by (rule new_short)
    qed
  qed
  have 3: "sorted (map (\<lambda>e. length (entry_path e)) queue')"
  proof -
    have "sorted (map (\<lambda>e. length (entry_path e)) rest)"
      using sorted_old by simp
    moreover have "sorted (map (\<lambda>e. length (entry_path e)) ?new)"
      by (rule sorted_map_const [where c = "Suc (length (entry_path e))"]) (use new_len in blast)
    moreover have "length (entry_path a) \<le> length (entry_path b)"
      if "a \<in> set rest" "b \<in> set ?new" for a b
      using bound_old new_len [OF that(2)] that(1) by simp
    ultimately show ?thesis
      unfolding q' by (rule sorted_map_append)
  qed
  have 4: "\<forall>e'\<in>set queue'. length (entry_path e') \<le> Suc (length (entry_path (hd queue')))"
  proof (cases "queue' = []")
    case True
    then show ?thesis by simp
  next
    case False
    then have "hd queue' \<in> set queue'" by simp
    then have "hd queue' \<in> set rest \<or> hd queue' \<in> set ?new"
      by (auto simp: q')
    then have low: "length (entry_path e) \<le> length (entry_path (hd queue'))"
    proof
      assume "hd queue' \<in> set rest"
      then show ?thesis by (rule lower)
    next
      assume "hd queue' \<in> set ?new"
      then show ?thesis using new_len [of "hd queue'"] by simp
    qed
    have "length (entry_path e') \<le> Suc (length (entry_path e))" if "e' \<in> set queue'" for e'
    proof -
      from that consider "e' \<in> set rest" | "e' \<in> set ?new" by (auto simp: q')
      then show ?thesis
      proof cases
        case 1
        then show ?thesis using bound_old by simp
      next
        case 2
        then show ?thesis using new_len [of e'] by simp
      qed
    qed
    with low show ?thesis
      using le_trans Suc_le_mono by blast
  qed
  have 5: "\<forall>v\<in>visited'. v \<in> entry_cell ` set queue' \<or> (\<forall>n. free_step g v n \<longrightarrow> n \<in> visited')"
  proof
    fix v assume v: "v \<in> visited'"
    show "v \<in> entry_cell ` set queue' \<or> (\<forall>n. free_step g v n \<longrightarrow> n \<in> visited')"
    proof (cases "v \<in> visited")
      case True
      then have "v \<in> entry_cell ` set (e # rest) \<or> (\<forall>n. free_step g v n \<longrightarrow> n \<in> visited)"
        using inv unfolding bfs_inv_def by blast
      then consider "v = entry_cell e" | "v \<in> entry_cell ` set rest"
        | "\<forall>n. free_step g v n \<longrightarrow> n \<in> visited"
        by auto
      then show ?thesis
      proof cases
        case 1
        then show ?thesis by (simp add: step v')
      next
        case 2
        then show ?thesis by (auto simp: q')
      next
        case 3
        then show ?thesis by (simp add: v')
      qed
    next
      case False
      then have "v \<in> set (fresh ns visited)"
        using v by (simp add: v' set_fresh)
      then have "(fst v, snd v, entry_path e @ [v]) \<in> set ?new"
        by simp
      then have "entry_cell (fst v, snd v, entry_path e @ [v]) \<in> entry_cell ` set queue'"
        unfolding q' by (intro imageI) simp
      then show ?thesis
        by (simp add: entry_cell_def)
    qed
  qed
  show ?thesis
    unfolding bfs_inv_def using 1 2 3 4 5 by blast
qed

lemma bfs_loop_correct:
  "snake_wf (game_snake g) \<Longrightarrow> bfs_inv g start queue visited \<Longrightarrow>
   bfs_loop g goal_x goal_y queue visited iterations = Inr None
   \<or> (\<exists>p. bfs_loop g goal_x goal_y queue visited iterations = Inr (Some p)
          \<and> shortest_walk g start (goal_x, goal_y) p)"
proof (induction g goal_x goal_y queue visited iterations rule: bfs_loop.induct)
  case (1 g goal_x goal_y queue visited iterations)
  note wf = \<open>snake_wf (game_snake g)\<close> and inv = \<open>bfs_inv g start queue visited\<close>
  show ?case
  proof (cases queue)
    case Nil
    then show ?thesis by (subst bfs_loop.simps) simp
  next
    case (Cons e rest)
    obtain cx cy path where e: "e = (cx, cy, path)" by (cases e)
    show ?thesis
    proof (cases "iterations < max_iterations")
      case False
      then show ?thesis by (subst bfs_loop.simps) (simp add: Cons e)
    next
      case it: True
      show ?thesis
      proof (cases "cx = goal_x \<and> cy = goal_y")
        case True
        have "shortest_walk g start (goal_x, goal_y) path"
          using inv True unfolding bfs_inv_def Cons e
          by (simp add: entry_cell_def entry_path_def)
        moreover have "bfs_loop g goal_x goal_y queue visited iterations = Inr (Some path)"
          by (subst bfs_loop.simps) (simp add: Cons e it True)
        ultimately show ?thesis by simp
      next
        case False
        let ?ns = "filter (\<lambda>c. \<not> blocked g c) (four_neighbours (cx, cy))"
        have nb: "get_neighbors g cx cy = Inr ?ns"
          by (rule get_neighbors_wf [OF wf])
        obtain queue' visited' where vis: "visit_neighbors ?ns path rest visited = (queue', visited')"
          by (cases "visit_neighbors ?ns path rest visited")
        have inv0: "bfs_inv g start ((cx, cy, path) # rest) visited"
          using inv unfolding Cons e .
        have vis': "visit_neighbors
                      (filter (\<lambda>c. \<not> blocked g c) (four_neighbours (entry_cell (cx, cy, path))))
                      (entry_path (cx, cy, path)) rest visited = (queue', visited')"
          using vis by (simp add: entry_cell_def entry_path_def)
        have inv': "bfs_inv g start queue' visited'"
          by (rule bfs_inv_step [OF inv0 refl vis'])
        have unfold: "bfs_loop g goal_x goal_y queue visited iterations =
                        bfs_loop g goal_x goal_y queue' visited' (iterations + 1)"
          by (subst bfs_loop.simps) (simp add: Cons e it False nb vis)
        have "bfs_loop g goal_x goal_y queue' visited' (iterations + 1) = Inr None
              \<or> (\<exists>p. bfs_loop g goal_x goal_y queue' visited' (iterations + 1) = Inr (Some p)
                     \<and> shortest_walk g start (goal_x, goal_y) p)"
          by (rule "1.IH" [OF Cons e [symmetric] refl it False nb vis [symmetric] wf inv'])
        then show ?thesis
          unfolding unfold .
      qed
    qed
  qed
qed

lemma distinct_fresh: "distinct (fresh ns visited)"
proof (induction ns arbitrary: visited)
  case Nil
  then show ?case by simp
next
  case (Cons n ns)
  then show ?case by (auto simp: set_fresh)
qed

lemma entry_cell_new:
  "map entry_cell (map (\<lambda>n. (fst n, snd n, path @ [n])) ns) = ns"
  by (induction ns) (simp_all add: entry_cell_def)

lemma reachable_start: "reachable g start start"
  unfolding reachable_def walk_from_to_def
  by (rule exI [of _ "[start]"]) simp

lemma reachable_step:
  assumes "reachable g start c" "free_step g c n"
  shows "reachable g start n"
proof -
  obtain p where p: "walk g p" "hd p = start" "last p = c"
    using assms(1) by (auto simp: reachable_def walk_from_to_def)
  have "p \<noteq> []" using p(1) by auto
  then have "walk g (p @ [n]) \<and> hd (p @ [n]) = start \<and> last (p @ [n]) = n"
    using p assms(2) by (simp add: walk_append)
  then show ?thesis
    unfolding reachable_def walk_from_to_def by blast
qed

lemma bfs_count_inv_init:
  "bfs_count_inv g (sx, sy) goal [(sx, sy, [(sx, sy)])] {(sx, sy)} 0"
  by (simp add: bfs_count_inv_def entry_cell_def reachable_start)

lemma bfs_count_inv_step:
  assumes inv: "bfs_count_inv g start goal (e # rest) visited iterations"
    and old: "bfs_inv g start (e # rest) visited"
    and ns: "ns = filter (\<lambda>c. \<not> blocked g c) (four_neighbours (entry_cell e))"
    and vis: "visit_neighbors ns (entry_path e) rest visited = (queue', visited')"
    and not_goal: "entry_cell e \<noteq> goal"
  shows "bfs_count_inv g start goal queue' visited' (iterations + 1)"
proof -
  let ?new = "map (\<lambda>n. (fst n, snd n, entry_path e @ [n])) (fresh ns visited)"
  have q': "queue' = rest @ ?new" and v': "visited' = visited \<union> set ns"
    using vis by (simp_all add: visit_neighbors_eq)
  have cells': "map entry_cell queue' = map entry_cell rest @ fresh ns visited"
    by (simp add: q' entry_cell_new del: map_map)
  have fin: "finite visited" and dist: "distinct (map entry_cell (e # rest))"
    and cnt: "card (visited - entry_cell ` set (e # rest)) = iterations"
    and goal: "goal \<notin> visited - entry_cell ` set (e # rest)"
    and reach: "\<forall>v\<in>visited. reachable g start v"
    using inv by (simp_all add: bfs_count_inv_def)
  have in_vis: "entry_cell ` set (e # rest) \<subseteq> visited"
    using old by (auto simp: bfs_inv_def)
  have 1: "finite visited'"
    using fin by (simp add: v')
  have 2: "distinct (map entry_cell queue')"
    unfolding cells' using dist in_vis by (auto simp: distinct_fresh set_fresh)
  have set_cells': "entry_cell ` set queue' = entry_cell ` set rest \<union> (set ns - visited)"
    using arg_cong [OF cells', of set] by (simp add: set_fresh)
  have e_notin: "entry_cell e \<notin> entry_cell ` set rest"
    using dist by simp
  have processed: "visited' - entry_cell ` set queue' =
                   insert (entry_cell e) (visited - entry_cell ` set (e # rest))"
  proof -
    have algebra: "(A \<union> B) - (C \<union> (B - A)) = insert c (A - insert c C)"
      if "c \<in> A" "c \<notin> C" for A B C :: "(int \<times> int) set" and c
      using that by blast
    have "entry_cell e \<in> visited"
      using in_vis by simp
    then show ?thesis
      unfolding set_cells' v' list.set image_insert
      using e_notin by (rule algebra)
  qed
  have 3: "card (visited' - entry_cell ` set queue') = iterations + 1"
    unfolding processed using fin cnt by simp
  have 4: "goal \<notin> visited' - entry_cell ` set queue'"
    unfolding processed using goal not_goal by simp
  have "reachable g start n" if "n \<in> set ns" for n
  proof -
    have "free_step g (entry_cell e) n"
      using that by (simp add: ns free_step_iff)
    moreover have "reachable g start (entry_cell e)"
      using reach in_vis by auto
    ultimately show ?thesis
      using reachable_step by blast
  qed
  then have 5: "\<forall>v\<in>visited'. reachable g start v"
    using reach by (auto simp: v')
  show ?thesis
    unfolding bfs_count_inv_def by (intro conjI 1 2 3 4 5)
qed

lemma closed_visited_reachable:
  "\<forall>v\<in>visited. \<forall>n. free_step g v n \<longrightarrow> n \<in> visited \<Longrightarrow>
   walk g p \<Longrightarrow> hd p \<in> visited \<Longrightarrow> last p \<in> visited"
proof (induction g p rule: walk.induct)
  case (1 g)
  then show ?case by simp
next
  case (2 g c)
  then show ?case by simp
next
  case (3 g c c' cs)
  have "c' \<in> visited"
    using "3.prems" by (metis walk.simps(3) list.sel(1))
  then have "last (c' # cs) \<in> visited"
    using "3.IH" "3.prems" by simp
  then show ?case by simp
qed

lemma bfs_loop_none:
  "snake_wf (game_snake g) \<Longrightarrow> bfs_inv g start queue visited \<Longrightarrow>
   bfs_count_inv g start (goal_x, goal_y) queue visited iterations \<Longrightarrow>
   bfs_loop g goal_x goal_y queue visited iterations = Inr None \<Longrightarrow>
   \<not> reachable g start (goal_x, goal_y)
   \<or> (\<exists>S. finite S \<and> max_iterations \<le> card S \<and> (goal_x, goal_y) \<notin> S
          \<and> (\<forall>v\<in>S. reachable g start v))"
proof (induction g goal_x goal_y queue visited iterations rule: bfs_loop.induct)
  case (1 g goal_x goal_y queue visited iterations)
  note wf = \<open>snake_wf (game_snake g)\<close> and inv = \<open>bfs_inv g start queue visited\<close>
    and cnt = \<open>bfs_count_inv g start (goal_x, goal_y) queue visited iterations\<close>
    and none = \<open>bfs_loop g goal_x goal_y queue visited iterations = Inr None\<close>
  let ?S = "visited - entry_cell ` set queue"
  have S: "finite ?S" "card ?S = iterations" "(goal_x, goal_y) \<notin> ?S"
      "\<forall>v\<in>?S. reachable g start v"
    using cnt by (simp_all add: bfs_count_inv_def)
  show ?case
  proof (cases queue)
    case Nil
    have closed: "\<forall>v\<in>visited. \<forall>n. free_step g v n \<longrightarrow> n \<in> visited"
      using inv by (simp add: bfs_inv_def Nil)
    have start: "start \<in> visited"
      using inv by (simp add: bfs_inv_def)
    have "\<not> reachable g start (goal_x, goal_y)"
    proof
      assume "reachable g start (goal_x, goal_y)"
      then obtain p where "walk g p" "hd p = start" "last p = (goal_x, goal_y)"
        by (auto simp: reachable_def walk_from_to_def)
      then have "(goal_x, goal_y) \<in> visited"
        using closed_visited_reachable [OF closed, of p] start by simp
      then show False
        using S(3) by (simp add: Nil)
    qed
    then show ?thesis ..
  next
    case (Cons e rest)
    obtain cx cy path where e: "e = (cx, cy, path)" by (cases e)
    show ?thesis
    proof (cases "iterations < max_iterations")
      case False
      then have "max_iterations \<le> card ?S"
        using S(2) by simp
      then show ?thesis
        using S by blast
    next
      case it: True
      show ?thesis
      proof (cases "cx = goal_x \<and> cy = goal_y")
        case True
        have "bfs_loop g goal_x goal_y queue visited iterations = Inr (Some path)"
          by (subst bfs_loop.simps) (simp add: Cons e it True)
        with none show ?thesis by simp
      next
        case False
        let ?ns = "filter (\<lambda>c. \<not> blocked g c) (four_neighbours (cx, cy))"
        have nb: "get_neighbors g cx cy = Inr ?ns"
          by (rule get_neighbors_wf [OF wf])
        obtain queue' visited' where vis: "visit_neighbors ?ns path rest visited = (queue', visited')"
          by (cases "visit_neighbors ?ns path rest visited")
        have inv0: "bfs_inv g start ((cx, cy, path) # rest) visited"
          using inv unfolding Cons e .
        have cnt0: "bfs_count_inv g start (goal_x, goal_y) ((cx, cy, path) # rest) visited iterations"
          using cnt unfolding Cons e .
        have vis': "visit_neighbors
                      (filter (\<lambda>c. \<not> blocked g c) (four_neighbours (entry_cell (cx, cy, path))))
                      (entry_path (cx, cy, path)) rest visited = (queue', visited')"
          using vis by (simp add: entry_cell_def entry_path_def)
        have inv': "bfs_inv g start queue' visited'"
          by (rule bfs_inv_step [OF inv0 refl vis'])
        have ng: "entry_cell (cx, cy, path) \<noteq> (goal_x, goal_y)"
          using False by (simp add: entry_cell_def)
        have cnt': "bfs_count_inv g start (goal_x, goal_y) queue' visited' (iterations + 1)"
          by (rule bfs_count_inv_step [OF cnt0 inv0 refl vis' ng])
        have unfold: "bfs_loop g goal_x goal_y queue visited iterations =
                        bfs_loop g goal_x goal_y queue' visited' (iterations + 1)"
          by (subst bfs_loop.simps) (simp add: Cons e it False nb vis)
        show ?thesis
          by (rule "1.IH" [OF Cons e [symmetric] refl it False nb vis [symmetric] wf inv' cnt'
                none [unfolded unfold]])
      qed
    qed
  qed
qed

lemma walk_last_free: "walk g p \<Longrightarrow> 2 \<le> length p \<Longrightarrow> \<not> blocked g (last p)"
proof (induction g p rule: walk.induct)
  case (1 g)
  then show ?case by simp
next
  case (2 g c)
  then show ?case by simp
next
  case (3 g c c' cs)
  show ?case
  proof (cases cs)
    case Nil
    then show ?thesis using "3.prems" by (simp add: free_step_def)
  next
    case (Cons a as)
    then show ?thesis using 3 by simp
  qed
qed

lemma reachable_on_grid:
  assumes "reachable g start c"
  shows "c = start \<or> c \<in> {0..<surface_width g} \<times> {0..<surface_height g}"
proof -
  obtain p where p: "walk g p" "hd p = start" "last p = c"
    using assms by (auto simp: reachable_def walk_from_to_def)
  show ?thesis
  proof (cases "2 \<le> length p")
    case True
    then have "\<not> blocked g c"
      using walk_last_free [OF p(1)] p(3) by simp
    then have "fst c \<in> {0..<surface_width g} \<and> snd c \<in> {0..<surface_height g}"
      by (auto simp: blocked_def)
    then show ?thesis
      by (cases c) simp
  next
    case False
    then have "length p < 2" by simp
    moreover have "p \<noteq> []" using p(1) by auto
    ultimately have "length p = 1"
      by (cases p) simp_all
    then obtain a where "p = [a]"
      by (auto simp: length_Suc_conv)
    then show ?thesis using p by simp
  qed
qed

lemma finite_reachable: "finite {c. reachable g start c}"
proof -
  have "{c. reachable g start c} \<subseteq> insert start ({0..<surface_width g} \<times> {0..<surface_height g})"
    using reachable_on_grid by blast
  then show ?thesis
    by (rule finite_subset) simp
qed

lemma bfs_order_prefix: "\<exists>ys. bfs_order g start (t + k) = bfs_order g start t @ ys"
proof (induction k)
  case 0
  then show ?case by simp
next
  case (Suc k)
  then obtain ys where "bfs_order g start (t + k) = bfs_order g start t @ ys" by blast
  then show ?case by (simp add: Let_def)
qed

lemma bfs_order_stable:
  "length (bfs_order g start t) \<le> t \<Longrightarrow> bfs_order g start (t + k) = bfs_order g start t"
  by (induction k) (simp_all add: Let_def)

lemma bfs_order_inv_init:
  "bfs_order_inv g (sx, sy) goal [(sx, sy, [(sx, sy)])] {(sx, sy)} 0"
  by (simp add: bfs_order_inv_def entry_cell_def)

lemma bfs_order_inv_step:
  assumes inv: "bfs_order_inv g start goal (e # rest) visited iterations"
    and it: "iterations < max_iterations"
    and ns: "ns = filter (\<lambda>c. \<not> blocked g c) (four_neighbours (entry_cell e))"
    and vis: "visit_neighbors ns (entry_path e) rest visited = (queue', visited')"
    and not_goal: "entry_cell e \<noteq> goal"
  shows "bfs_order_inv g start goal queue' visited' (iterations + 1)"
proof -
  let ?order = "bfs_order g start iterations"
  have cells: "entry_cell e # map entry_cell rest = drop iterations ?order"
    and v: "visited = set ?order"
    and goal: "goal \<notin> set (take iterations ?order)"
    using inv by (simp_all add: bfs_order_inv_def)
  have lt: "iterations < length ?order"
    using cells by (metis drop_all list.distinct(1) not_le)
  have hd: "?order ! iterations = entry_cell e"
    using cells lt by (metis hd_drop_conv_nth list.sel(1))
  have tl: "map entry_cell rest = drop (Suc iterations) ?order"
    using cells by (metis drop_Suc list.sel(3) tl_drop)
  have next_order: "bfs_order g start (iterations + 1) = ?order @ fresh ns visited"
    using lt by (simp add: Let_def hd ns v free_neighbours_def)
  have q': "queue' = rest @ map (\<lambda>n. (fst n, snd n, entry_path e @ [n])) (fresh ns visited)"
    and v': "visited' = visited \<union> set ns"
    using vis by (simp_all add: visit_neighbors_eq)
  have 1: "map entry_cell queue' = drop (iterations + 1) (bfs_order g start (iterations + 1))"
    unfolding next_order q' using lt by (simp add: entry_cell_new tl del: map_map)
  have 2: "visited' = set (bfs_order g start (iterations + 1))"
    unfolding next_order v' by (auto simp: set_fresh v)
  have 3: "iterations + 1 \<le> length (bfs_order g start (iterations + 1))"
    unfolding next_order using lt by simp
  have "take (iterations + 1) (bfs_order g start (iterations + 1))
          = take iterations ?order @ [entry_cell e]"
    unfolding next_order using lt by (simp add: take_Suc_conv_app_nth hd)
  then have 4: "goal \<notin> set (take (iterations + 1) (bfs_order g start (iterations + 1)))"
    using goal not_goal by simp
  show ?thesis
    unfolding bfs_order_inv_def using 1 2 3 4 it by simp
qed

lemma bfs_loop_order:
  "snake_wf (game_snake g) \<Longrightarrow>
   bfs_order_inv g start (goal_x, goal_y) queue visited iterations \<Longrightarrow>
   bfs_loop g goal_x goal_y queue visited iterations = Inr None
     \<longleftrightarrow> (goal_x, goal_y) \<notin> set (take max_iterations (bfs_order g start max_iterations))"
proof (induction g goal_x goal_y queue visited iterations rule: bfs_loop.induct)
  case (1 g goal_x goal_y queue visited iterations)
  note wf = \<open>snake_wf (game_snake g)\<close>
    and inv = \<open>bfs_order_inv g start (goal_x, goal_y) queue visited iterations\<close>
  let ?order = "bfs_order g start iterations"
  let ?final = "bfs_order g start max_iterations"
  have cells: "map entry_cell queue = drop iterations ?order"
    and le: "iterations \<le> length ?order" "iterations \<le> max_iterations"
    and goal: "(goal_x, goal_y) \<notin> set (take iterations ?order)"
    using inv by (simp_all add: bfs_order_inv_def)
  obtain ys where final: "?final = ?order @ ys"
    using bfs_order_prefix [of g start iterations "max_iterations - iterations"] le(2) by auto
  show ?case
  proof (cases queue)
    case Nil
    then have len: "length ?order = iterations"
      using cells le(1) by simp
    then have "?final = ?order"
      using bfs_order_stable [of g start iterations "max_iterations - iterations"] le(2) by simp
    then have "(goal_x, goal_y) \<notin> set (take max_iterations ?final)"
      using goal len le(2) by simp
    moreover have "bfs_loop g goal_x goal_y queue visited iterations = Inr None"
      by (subst bfs_loop.simps) (simp add: Nil)
    ultimately show ?thesis by simp
  next
    case (Cons e rest)
    obtain cx cy path where e: "e = (cx, cy, path)" by (cases e)
    have lt: "iterations < length ?order"
      using cells Cons by (metis drop_all list.distinct(1) list.simps(9) not_le)
    have hd: "?order ! iterations = (cx, cy)"
      using cells lt unfolding Cons e
      by (metis entry_cell_def fst_conv hd_drop_conv_nth list.sel(1) list.simps(9) snd_conv)
    show ?thesis
    proof (cases "iterations < max_iterations")
      case False
      then have "iterations = max_iterations" using le(2) by simp
      then have "take max_iterations ?final = take iterations ?order"
        by simp
      moreover have "bfs_loop g goal_x goal_y queue visited iterations = Inr None"
        using False by (subst bfs_loop.simps) (simp add: Cons e)
      ultimately show ?thesis using goal by simp
    next
      case it: True
      show ?thesis
      proof (cases "cx = goal_x \<and> cy = goal_y")
        case True
        have "take max_iterations ?final ! iterations = ?final ! iterations"
          using it by simp
        also have "\<dots> = (goal_x, goal_y)"
          using lt hd True by (simp add: final nth_append)
        finally have "(goal_x, goal_y) \<in> set (take max_iterations ?final)"
          using it lt final
          by (metis length_append length_take min_less_iff_conj nth_mem trans_less_add1)
        moreover have "bfs_loop g goal_x goal_y queue visited iterations = Inr (Some path)"
          by (subst bfs_loop.simps) (simp add: Cons e it True)
        ultimately show ?thesis by simp
      next
        case False
        let ?ns = "filter (\<lambda>c. \<not> blocked g c) (four_neighbours (cx, cy))"
        have nb: "get_neighbors g cx cy = Inr ?ns"
          by (rule get_neighbors_wf [OF wf])
        obtain queue' visited' where vis: "visit_neighbors ?ns path rest visited = (queue', visited')"
          by (cases "visit_neighbors ?ns path rest visited")
        have inv0: "bfs_order_inv g start (goal_x, goal_y) ((cx, cy, path) # rest) visited iterations"
          using inv unfolding Cons e .
        have vis': "visit_neighbors
                      (filter (\<lambda>c. \<not> blocked g c) (four_neighbours (entry_cell (cx, cy, path))))
                      (entry_path (cx, cy, path)) rest visited = (queue', visited')"
          using vis by (simp add: entry_cell_def entry_path_def)
        have ng: "entry_cell (cx, cy, path) \<noteq> (goal_x, goal_y)"
          using False by (simp add: entry_cell_def)
        have inv': "bfs_order_inv g start (goal_x, goal_y) queue' visited' (iterations + 1)"
          by (rule bfs_order_inv_step [OF inv0 it refl vis' ng])
        have unfold: "bfs_loop g goal_x goal_y queue visited iterations =
                        bfs_loop g goal_x goal_y queue' visited' (iterations + 1)"
          by (subst bfs_loop.simps) (simp add: Cons e it False nb vis)
        show ?thesis
          unfolding unfold
          by (rule "1.IH" [OF Cons e [symmetric] refl it False nb vis [symmetric] wf inv'])
      qed
    qed
  qed
qed

lemma bfs_order_reachable:
  "distinct (bfs_order g start t) \<and> (\<forall>c\<in>set (bfs_order g start t). reachable g start c)"
proof (induction t)
  case 0
  then show ?case by (simp add: reachable_start)
next
  case (Suc t)
  let ?order = "bfs_order g start t"
  show ?case
  proof (cases "t < length ?order")
    case False
    then show ?thesis using Suc by (simp add: Let_def)
  next
    case True
    let ?new = "fresh (free_neighbours g (?order ! t)) (set ?order)"
    have next_order: "bfs_order g start (Suc t) = ?order @ ?new"
      using True by (simp add: Let_def)
    have "reachable g start (?order ! t)"
      using Suc True by simp
    moreover have "free_step g (?order ! t) n" if "n \<in> set ?new" for n
      using that by (simp add: set_fresh free_neighbours_def free_step_iff)
    ultimately have "reachable g start n" if "n \<in> set ?new" for n
      using that reachable_step by blast
    moreover have "distinct (?order @ ?new)"
      using Suc by (auto simp: distinct_fresh set_fresh)
    ultimately show ?thesis
      unfolding next_order using Suc by auto
  qed
qed

text \<open>
  C1. For a well-formed snake the search returns normally. A returned path is a walk over
  free cells that starts at the head cell, ends at the goal cell and is as short as any
  such walk. The result is \<^verbatim>\<open>None\<close> exactly when the goal is not among the first 200 cells
  of the breadth-first visiting order from the head: when the goal is unreachable (the
  order lists reachable cells only), or when it is reachable but 200 other cells are
  dequeued before it, which needs more than 200 reachable cells.
\<close>

theorem find_path_astar_shortest:
  assumes wf: "snake_wf (game_snake g)"
  shows "(((goal_x, goal_y) \<in> set (take max_iterations (bfs_order g (start_x, start_y) max_iterations))
            \<and> (\<exists>p. find_path_astar g start_x start_y goal_x goal_y = Inr (Some p)
                    \<and> shortest_walk g (start_x, start_y) (goal_x, goal_y) p))
          \<or> ((goal_x, goal_y) \<notin> set (take max_iterations (bfs_order g (start_x, start_y) max_iterations))
              \<and> find_path_astar g start_x start_y goal_x goal_y = Inr None
              \<and> (\<not> reachable g (start_x, start_y) (goal_x, goal_y)
                   \<or> max_iterations < card {c. reachable g (start_x, start_y) c})))
         \<and> (\<not> reachable g (start_x, start_y) (goal_x, goal_y) \<longrightarrow>
               find_path_astar g start_x start_y goal_x goal_y = Inr None)
         \<and> distinct (bfs_order g (start_x, start_y) max_iterations)
         \<and> (\<forall>c\<in>set (bfs_order g (start_x, start_y) max_iterations).
               reachable g (start_x, start_y) c)"
proof -
  let ?start = "(start_x, start_y)" and ?goal = "(goal_x, goal_y)"
  let ?r = "find_path_astar g start_x start_y goal_x goal_y"
  let ?first = "set (take max_iterations (bfs_order g ?start max_iterations))"
  have inv: "bfs_inv g ?start [(start_x, start_y, [?start])] {?start}"
    by (rule bfs_inv_init)
  have cnt: "bfs_count_inv g ?start ?goal [(start_x, start_y, [?start])] {?start} 0"
    by (rule bfs_count_inv_init)
  have ord: "bfs_order_inv g ?start ?goal [(start_x, start_y, [?start])] {?start} 0"
    by (rule bfs_order_inv_init)
  have cases: "?r = Inr None \<or> (\<exists>p. ?r = Inr (Some p) \<and> shortest_walk g ?start ?goal p)"
    unfolding find_path_astar_def by (rule bfs_loop_correct [OF wf inv])
  have exact: "?r = Inr None \<longleftrightarrow> ?goal \<notin> ?first"
    unfolding find_path_astar_def by (rule bfs_loop_order [OF wf ord])
  have none: "\<not> reachable g ?start ?goal \<or> max_iterations < card {c. reachable g ?start c}"
    if r: "?r = Inr None"
  proof (cases "reachable g ?start ?goal")
    case False
    then show ?thesis ..
  next
    case True
    then obtain S where S: "finite S" "max_iterations \<le> card S" "?goal \<notin> S"
        "\<forall>v\<in>S. reachable g ?start v"
      using bfs_loop_none [OF wf inv cnt r [unfolded find_path_astar_def]] by blast
    have "insert ?goal S \<subseteq> {c. reachable g ?start c}"
      using S(4) True by blast
    then have "card (insert ?goal S) \<le> card {c. reachable g ?start c}"
      by (rule card_mono [OF finite_reachable])
    then show ?thesis
      using S by simp
  qed
  have unreachable: "?r = Inr None" if "\<not> reachable g ?start ?goal"
    using cases that by (auto simp: shortest_walk_def reachable_def)
  have 1: "(?goal \<in> ?first \<and> (\<exists>p. ?r = Inr (Some p) \<and> shortest_walk g ?start ?goal p))
          \<or> (?goal \<notin> ?first \<and> ?r = Inr None
              \<and> (\<not> reachable g ?start ?goal \<or> max_iterations < card {c. reachable g ?start c}))"
    using cases exact none by auto
  show ?thesis
    using 1 unreachable bfs_order_reachable [of g ?start max_iterations] by blast
qed

theorem find_path_astar_shortest_witness:
  "find_path_astar Game_init 40 40 120 120
     = Inr (Some [(40, 40), (40, 80), (40, 120), (80, 120), (120, 120)])
   \<and> shortest_walk Game_init (40, 40) (120, 120)
         [(40, 40), (40, 80), (40, 120), (80, 120), (120, 120)]
   \<and> (120, 120) \<in> set (take max_iterations (bfs_order Game_init (40, 40) max_iterations))"
proof -
  have wf: "snake_wf (game_snake Game_init)"
    by (simp add: Game_init_def snake_wf_Snake_init)
  have run: "find_path_astar Game_init 40 40 120 120
               = Inr (Some [(40, 40), (40, 80), (40, 120), (80, 120), (120, 120)])"
    by code_simp
  show ?thesis
    using find_path_astar_shortest [OF wf, of 120 120 40 40]
    unfolding run by simp
qed

theorem find_path_astar_cap_counterexample:
  "find_path_astar
     \<lparr>surface_width = 1000, surface_height = 800,
       game_snake = \<lparr>snake_direction = Left, snake_length = 1, snake_x = [0], snake_y = [0]\<rparr>,
       game_apple = \<lparr>apple_screen_width = 1000, apple_screen_height = 800,
                     apple_grid_width = 25, apple_grid_height = 20,
                     apple_x = 920, apple_y = 720\<rparr>\<rparr>
     0 0 920 720 = Inr None
   \<and> walk_from_to
     \<lparr>surface_width = 1000, surface_height = 800,
       game_snake = \<lparr>snake_direction = Left, snake_length = 1, snake_x = [0], snake_y = [0]\<rparr>,
       game_apple = \<lparr>apple_screen_width = 1000, apple_screen_height = 800,
                     apple_grid_width = 25, apple_grid_height = 20,
                     apple_x = 920, apple_y = 720\<rparr>\<rparr>
     (0, 0) (920, 720)
     [(0, 0), (40, 0), (80, 0), (120, 0), (160, 0), (200, 0), (240, 0), (280, 0),
        (320, 0), (360, 0), (400, 0), (440, 0), (480, 0), (520, 0), (560, 0), (600, 0),
        (640, 0), (680, 0), (720, 0), (760, 0), (800, 0), (840, 0), (880, 0), (920, 0),
        (920, 40), (920, 80), (920, 120), (920, 160), (920, 200), (920, 240), (920,
        280), (920, 320), (920, 360), (920, 400), (920, 440), (920, 480), (920, 520),
        (920, 560), (920, 600), (920, 640), (920, 680), (920, 720)]"
proof -
  have run: "find_path_astar
     \<lparr>surface_width = 1000, surface_height = 800,
       game_snake = \<lparr>snake_direction = Left, snake_length = 1, snake_x = [0], snake_y = [0]\<rparr>,
       game_apple = \<lparr>apple_screen_width = 1000, apple_screen_height = 800,
                     apple_grid_width = 25, apple_grid_height = 20,
                     apple_x = 920, apple_y = 720\<rparr>\<rparr>
     0 0 920 720 = Inr None"
    by code_simp
  show ?thesis
    unfolding run
    by (simp add: walk_from_to_def free_step_def four_neighbours_def blocked_def SIZE_def)
qed

section \<open>The emergency stage\<close>



lemma emergency_move_wf:
  assumes wf: "snake_wf (game_snake g)"
  shows "emergency_move g head_x head_y =
     Inr (Some
       (if \<not> is_opposite_direction g Up \<and> \<not> blocked g (cell_towards head_x head_y Up) then Up
        else if \<not> is_opposite_direction g Down \<and> \<not> blocked g (cell_towards head_x head_y Down) then Down
        else if \<not> is_opposite_direction g Left \<and> \<not> blocked g (cell_towards head_x head_y Left) then Left
        else if \<not> is_opposite_direction g Right \<and> \<not> blocked g (cell_towards head_x head_y Right) then Right
        else if \<not> is_opposite_direction g Up then Up else Down))"
  by (cases "snake_direction (game_snake g)")
     (simp_all add: emergency_move_def deltas_def would_collide_wf [OF wf] cell_towards_def
        is_opposite_direction_def opposites_def)




section \<open>The cascade always decides\<close>

lemma flood_fill_loop_total:
  "snake_wf (game_snake g) \<Longrightarrow>
   \<exists>c. flood_fill_loop g queue visited count max_depth = Inr c"
proof (induction g queue visited count max_depth rule: flood_fill_loop.induct)
  case (1 g queue visited count max_depth)
  note wf = \<open>snake_wf (game_snake g)\<close>
  show ?case
  proof (cases queue)
    case Nil
    then show ?thesis by (subst flood_fill_loop.simps) simp
  next
    case (Cons e rest)
    obtain x y depth where e: "e = (x, y, depth)" by (cases e)
    show ?thesis
    proof (cases "count < max_depth")
      case False
      then show ?thesis by (subst flood_fill_loop.simps) (simp add: Cons e)
    next
      case c: True
      show ?thesis
      proof (cases "(x, y) \<in> visited \<or> depth > max_depth")
        case True
        have "\<exists>c. flood_fill_loop g rest visited count max_depth = Inr c"
          by (rule "1.IH"(1) [OF Cons e [symmetric] refl c True wf])
        then show ?thesis
          by (subst flood_fill_loop.simps) (simp add: Cons e c True)
      next
        case False
        show ?thesis
        proof (cases "blocked g (x, y)")
          case True
          have "\<exists>c. flood_fill_loop g rest visited count max_depth = Inr c"
            by (rule "1.IH"(2) [OF Cons e [symmetric] refl c False would_collide_wf [OF wf] True wf])
          then show ?thesis
            using False
            by (subst flood_fill_loop.simps) (simp add: Cons e c True would_collide_wf [OF wf])
        next
          case free: False
          have "\<exists>c. flood_fill_loop g
                    (rest @ [(x + dx, y + dy, depth + 1). (dx, dy) \<leftarrow> deltas,
                               (x + dx, y + dy) \<notin> insert (x, y) visited])
                    (insert (x, y) visited) (count + 1) max_depth = Inr c"
            by (rule "1.IH"(3) [OF Cons e [symmetric] refl c False would_collide_wf [OF wf] free wf])
          then show ?thesis
            using False
            by (subst flood_fill_loop.simps) (simp add: Cons e c free would_collide_wf [OF wf])
        qed
      qed
    qed
  qed
qed

lemma safety_loop_total:
  "snake_wf (game_snake g) \<Longrightarrow> \<exists>r. safety_loop g x y ds safe_spaces total_spaces = Inr r"
proof (induction ds arbitrary: safe_spaces total_spaces)
  case Nil
  then show ?case by simp
next
  case (Cons d ds)
  obtain dx dy where d: "d = (dx, dy)" by (cases d)
  show ?case
    using Cons by (simp add: d would_collide_wf)
qed

lemma mobility_loop_total:
  "snake_wf (game_snake g) \<Longrightarrow> \<exists>r. mobility_loop g x y ds future_moves = Inr r"
proof (induction ds arbitrary: future_moves)
  case Nil
  then show ?case by simp
next
  case (Cons d ds)
  obtain dx dy where d: "d = (dx, dy)" by (cases d)
  show ?case
    using Cons by (simp add: d would_collide_wf)
qed

lemma calculate_move_score_total:
  assumes wf: "snake_wf (game_snake g)" and w: "0 < surface_width g"
  shows "\<exists>score. calculate_move_score g x y ax ay = Inr score"
proof -
  have "0 < (surface_width g)\<^sup>2" "0 \<le> (surface_height g)\<^sup>2"
    using w by simp_all
  then have "0 < (surface_width g)\<^sup>2 + (surface_height g)\<^sup>2"
    by linarith
  then have "0 < real_of_int ((surface_width g)\<^sup>2 + (surface_height g)\<^sup>2)"
    by (simp only: of_int_0_less_iff)
  then have nz: "sqrt (real_of_int ((surface_width g)\<^sup>2 + (surface_height g)\<^sup>2)) \<noteq> 0"
    using real_sqrt_gt_zero by fastforce
  obtain s where s: "calculate_safety_score g x y = Inr s"
    using safety_loop_total [OF wf]
    by (fastforce simp: calculate_safety_score_def bind_err_eq_Inr split: prod.splits)
  obtain m where m: "calculate_mobility_score g x y = Inr m"
    using mobility_loop_total [OF wf]
    by (fastforce simp: calculate_mobility_score_def bind_err_eq_Inr)
  obtain t where t: "calculate_trap_avoidance_score g x y = Inr t"
    using flood_fill_loop_total [OF wf]
    by (fastforce simp: calculate_trap_avoidance_score_def flood_fill_count_def bind_err_eq_Inr)
  show ?thesis
    using nz by (simp add: calculate_move_score_def Let_def s m t)
qed

lemma evaluate_moves_loop_total:
  assumes wf: "snake_wf (game_snake g)" and w: "0 < surface_width g"
  shows "\<exists>ms. evaluate_moves_loop g ax ay ds = Inr ms"
proof (induction ds)
  case Nil
  then show ?case by simp
next
  case (Cons d ds)
  obtain dir nx ny where d: "d = (dir, nx, ny)" by (cases d)
  obtain score where score: "calculate_move_score g nx ny ax ay = Inr score"
    using calculate_move_score_total [OF wf w] by blast
  show ?case
    using Cons by (auto simp: d would_collide_wf [OF wf] score)
qed

lemma find_path_astar_total:
  assumes wf: "snake_wf (game_snake g)"
  shows "\<exists>r. find_path_astar g sx sy gx gy = Inr r"
  using bfs_loop_correct [OF wf bfs_inv_init [of g sx sy], of gx gy 0]
  unfolding find_path_astar_def by blast

text \<open>
  C2. For a well-formed snapshot (snake invariant, goal on the surface) the cascade of
  \<^verbatim>\<open>auto_control\<close> raises nothing and hands exactly one of the four headings to
  \<^verbatim>\<open>_execute_move\<close>; the tick never ends without a decision.
\<close>

theorem auto_control_total:
  assumes "game_wf g"
  shows "\<exists>d. auto_control_choice g = Inr (Some d) \<and> auto_control g = Inr (execute_move g d)"
proof -
  have wf: "snake_wf (game_snake g)" and w: "0 < surface_width g"
    using assms by (auto simp: game_wf_def)
  let ?hx = "snake_x (game_snake g) ! 0" and ?hy = "snake_y (game_snake g) ! 0"
  let ?ax = "apple_x (game_apple g)" and ?ay = "apple_y (game_apple g)"
  have head: "py_get (snake_x (game_snake g)) 0 = Inr ?hx" "py_get (snake_y (game_snake g)) 0 = Inr ?hy"
    using wf by (simp_all add: snake_wf_def)
  obtain path where path: "find_path_astar g ?hx ?hy ?ax ?ay = Inr path"
    using find_path_astar_total [OF wf] by blast
  obtain ms where ms: "evaluate_moves g ?hx ?hy ?ax ?ay = Inr ms"
    using evaluate_moves_loop_total [OF wf w] unfolding evaluate_moves_def by blast
  obtain e where e: "emergency_move g ?hx ?hy = Inr (Some e)"
    using emergency_move_wf [OF wf] by blast
  have "\<exists>d. auto_control_choice g = Inr (Some d)"
    by (simp add: auto_control_choice_def head Let_def path ms e split: option.split list.split)
  then show ?thesis
    by (auto simp: auto_control_def)
qed

theorem auto_control_total_witness:
  "auto_control_choice Game_init = Inr (Some Down)
   \<and> auto_control Game_init = Inr Game_init"
proof -
  have wf: "game_wf Game_init"
    by (simp add: game_wf_def Game_init_def snake_wf_Snake_init Apple_init_def)
  have run: "find_path_astar Game_init 40 40 120 120
               = Inr (Some [(40, 40), (40, 80), (40, 120), (80, 120), (120, 120)])"
    by code_simp
  have fields: "snake_x (game_snake Game_init) = [40]" "snake_y (game_snake Game_init) = [40]"
      "apple_x (game_apple Game_init) = 120" "apple_y (game_apple Game_init) = 120"
    by (simp_all add: Game_init_def Snake_init_def Apple_init_def)
  have choice: "auto_control_choice Game_init = Inr (Some Down)"
    unfolding auto_control_choice_def fields
    by (simp add: run path_step_def get_direction_to_position_def)
  have same: "execute_move Game_init Down = Game_init"
    by (simp add: execute_move_def Game_init_def Snake_init_def move_down_def)
  obtain d where d: "auto_control_choice Game_init = Inr (Some d)"
      "auto_control Game_init = Inr (execute_move Game_init d)"
    using auto_control_total [OF wf] by blast
  then have "d = Down"
    by (simp add: choice)
  then show ?thesis
    using d(2) by (simp add: choice same)
qed

section \<open>The trap-avoidance score\<close>



lemma free_region_free: "c \<in> free_region g start \<Longrightarrow> \<not> blocked g c"
proof -
  assume c: "c \<in> free_region g start"
  then have start: "\<not> blocked g start" and "reachable g start c"
    by (auto simp: free_region_def split: if_splits)
  then obtain p where p: "walk g p" "hd p = start" "last p = c"
    by (auto simp: reachable_def walk_from_to_def)
  show ?thesis
  proof (cases "2 \<le> length p")
    case True
    then show ?thesis using walk_last_free [OF p(1)] p(3) by simp
  next
    case False
    then have "length p < 2" by simp
    moreover have "p \<noteq> []" using p(1) by auto
    ultimately have "length p = 1" by (cases p) simp_all
    then obtain a where "p = [a]" by (auto simp: length_Suc_conv)
    then show ?thesis using p start by simp
  qed
qed






lemma deltas_four_neighbours:
  "map (\<lambda>(dx, dy). (x + dx, y + dy)) deltas = four_neighbours (x, y)"
  by (simp add: deltas_def four_neighbours_def)













end
